theory Spec2Isabelle
  imports Main "HOL-Library.Sublist"
begin

section \<open>Text: characters, lines, stripping\<close>

text \<open>
  The script works on Python \<open>str\<close> values. A \<^typ>\<open>string\<close> here is the decoded text,
  one \<^typ>\<open>char\<close> per code point, for code points below 256; the character classes
  are Python's classes on that range. Files and subprocess output are text (the script
  decodes both as UTF-8, after universal-newline translation).
\<close>

definition code :: "char \<Rightarrow> nat" where
  "code c = of_char c"

text \<open>\<open>str.isspace\<close>, which is also what \<open>\s\<close> matches and what \<open>str.strip()\<close> removes.\<close>

definition is_space :: "char \<Rightarrow> bool" where
  "is_space c = (let n = code c in
     (9 \<le> n \<and> n \<le> 13) \<or> (28 \<le> n \<and> n \<le> 32) \<or> n = 133 \<or> n = 160)"

text \<open>The line boundaries of \<open>str.splitlines\<close>.\<close>

definition is_linebreak :: "char \<Rightarrow> bool" where
  "is_linebreak c = (let n = code c in
     (10 \<le> n \<and> n \<le> 13) \<or> (28 \<le> n \<and> n \<le> 30) \<or> n = 133)"

text \<open>What \<open>\w\<close> matches: alphanumeric characters and the underscore.\<close>

definition is_word :: "char \<Rightarrow> bool" where
  "is_word c = (let n = code c in
     (48 \<le> n \<and> n \<le> 57) \<or> (65 \<le> n \<and> n \<le> 90) \<or> n = 95 \<or> (97 \<le> n \<and> n \<le> 122) \<or>
     n = 170 \<or> n = 178 \<or> n = 179 \<or> n = 181 \<or> n = 185 \<or> n = 186 \<or>
     (188 \<le> n \<and> n \<le> 190) \<or> (192 \<le> n \<and> n \<le> 214) \<or> (216 \<le> n \<and> n \<le> 246) \<or>
     (248 \<le> n \<and> n \<le> 255))"

text \<open>
  Case folding as \<open>re.IGNORECASE\<close> applies it to the patterns of this script, whose
  letters are all ASCII: two characters agree when their lower-case forms, given here
  by their code points, are equal.
\<close>

definition to_lower :: "char \<Rightarrow> nat" where
  "to_lower c = (if 65 \<le> code c \<and> code c \<le> 90 then code c + 32 else code c)"

definition strip :: "string \<Rightarrow> string" where
  "strip s = rev (dropWhile is_space (rev (dropWhile is_space s)))"

text \<open>
  \<open>str.splitlines()\<close>: the text is cut at every line boundary, \<open>\r\n\<close> counting as one;
  the boundaries are dropped, and a boundary at the very end opens no further line.
  The first argument holds the current line, reversed.
\<close>

fun split_from :: "string \<Rightarrow> string \<Rightarrow> string list" where
  "split_from acc [] = (if acc = [] then [] else [rev acc])"
| "split_from acc [c] = (if is_linebreak c then [rev acc] else [rev (c # acc)])"
| "split_from acc (c # d # cs) =
     (if c = CHR 0x0D \<and> d = CHR 0x0A then rev acc # split_from [] cs
      else if is_linebreak c then rev acc # split_from [] (d # cs)
      else split_from (c # acc) (d # cs))"

definition splitlines :: "string \<Rightarrow> string list" where
  "splitlines s = split_from [] s"

text \<open>\<open>'\n'.join(lines)\<close>.\<close>

fun join_lines :: "string list \<Rightarrow> string" where
  "join_lines [] = []"
| "join_lines [l] = l"
| "join_lines (l # m # ls) = l @ CHR 0x0A # join_lines (m # ls)"

section \<open>Regular expressions\<close>

text \<open>
  The fragment of Python's \<open>re\<close> syntax that the two pattern catalogues use, compiled
  with \<open>re.IGNORECASE\<close>: literal text, \<open>.\<close> and \<open>\s\<close> under \<open>*\<close> and \<open>+\<close>, the
  anchor \<open>^\<close>, the word boundary \<open>\b\<close>, a negative look-behind for literal text,
  sequence and alternation.
\<close>

datatype cclass = Dot | Space

datatype regex =
    Str string
  | Star cclass
  | Plus cclass
  | Bol
  | Word_Boundary
  | Not_Behind string
  | Cat regex regex
  | Alt regex regex

fun in_class :: "cclass \<Rightarrow> char \<Rightarrow> bool" where
  "in_class Dot c = (c \<noteq> CHR 0x0A)"
| "in_class Space c = is_space c"

text \<open>
  A position in the subject is the text before it, reversed, and the text after it.
\<close>

type_synonym pos = "string \<times> string"

fun lit :: "string \<Rightarrow> string \<Rightarrow> string \<Rightarrow> pos list" where
  "lit [] b a = [(b, a)]"
| "lit (c # cs) b [] = []"
| "lit (c # cs) b (x # xs) = (if to_lower x = to_lower c then lit cs (x # b) xs else [])"

text \<open>Greedy repetition: the longest run first, then each shorter one.\<close>

fun star :: "cclass \<Rightarrow> string \<Rightarrow> string \<Rightarrow> pos list" where
  "star k b [] = [(b, [])]"
| "star k b (x # xs) = (if in_class k x then star k (x # b) xs else []) @ [(b, x # xs)]"

definition word_before :: "string \<Rightarrow> bool" where
  "word_before b = (case b of [] \<Rightarrow> False | x # _ \<Rightarrow> is_word x)"

definition word_after :: "string \<Rightarrow> bool" where
  "word_after a = (case a of [] \<Rightarrow> False | x # _ \<Rightarrow> is_word x)"

text \<open>
  \<open>run r p\<close> lists the positions at which a match of \<open>r\<close> that starts at \<open>p\<close> can end,
  in the order in which a backtracking matcher tries them.
\<close>

fun run :: "regex \<Rightarrow> pos \<Rightarrow> pos list" where
  "run (Str w) (b, a) = lit w b a"
| "run (Star k) (b, a) = star k b a"
| "run (Plus k) (b, a) =
     (case a of [] \<Rightarrow> [] | x # xs \<Rightarrow> if in_class k x then star k (x # b) xs else [])"
| "run Bol (b, a) = (if b = [] then [(b, a)] else [])"
| "run Word_Boundary (b, a) = (if word_before b \<noteq> word_after a then [(b, a)] else [])"
| "run (Not_Behind w) (b, a) = (if lit (rev w) [] b \<noteq> [] then [] else [(b, a)])"
| "run (Cat r s) p = concat (map (run s) (run r p))"
| "run (Alt r s) p = run r p @ run s p"

fun positions :: "string \<Rightarrow> string \<Rightarrow> pos list" where
  "positions b [] = [(b, [])]"
| "positions b (x # xs) = (b, x # xs) # positions (x # b) xs"

text \<open>\<open>pattern.match(s)\<close> tries the start of \<open>s\<close> only; \<open>pattern.search(s)\<close> every position.\<close>

definition re_match :: "regex \<Rightarrow> string \<Rightarrow> bool" where
  "re_match r s = (run r ([], s) \<noteq> [])"

definition re_search :: "regex \<Rightarrow> string \<Rightarrow> bool" where
  "re_search r s = list_ex (\<lambda>p. run r p \<noteq> []) (positions [] s)"

fun seq :: "regex list \<Rightarrow> regex" where
  "seq [] = Str []"
| "seq [r] = r"
| "seq (r # s # rs) = Cat r (seq (s # rs))"

text \<open>\<open>'|'.join(patterns)\<close>, for a catalogue that is not empty.\<close>

fun alternatives :: "regex list \<Rightarrow> regex" where
  "alternatives [] = Str []"
| "alternatives [r] = r"
| "alternatives (r # s # rs) = Alt r (alternatives (s # rs))"

section \<open>The script\<close>

definition PROTECTED_PATHS :: "string list" where
  "PROTECTED_PATHS = [''src/config/'', ''src/env/'']"

definition LOG_PATTERNS :: "regex list" where
  "LOG_PATTERNS =
    [seq [Bol, Str ''+'', Star Dot, Str ''console.log''],
     seq [Bol, Str ''+'', Star Dot, Word_Boundary, Str ''print'', Star Space, Str ''(''],
     seq [Bol, Str ''+'', Star Dot, Str ''System.out.println''],
     seq [Bol, Str ''+'', Star Dot, Word_Boundary, Str ''echo'', Plus Space],
     seq [Bol, Str ''+'', Star Dot, Not_Behind ''logger.'', Word_Boundary, Str ''log'',
          Star Space, Str ''('']]"

definition FIX_PATTERNS :: "regex list" where
  "FIX_PATTERNS =
    [seq [Bol, Star Space, Str ''console.log'', Star Dot],
     seq [Bol, Star Space, Str ''print'', Star Space, Str ''('', Star Dot],
     seq [Bol, Star Space, Str ''System.out.println'', Star Dot],
     seq [Bol, Star Space, Str ''echo'', Plus Space, Star Dot],
     seq [Bol, Star Space, Not_Behind ''logger.'', Str ''log'', Star Space, Str ''('',
          Star Dot]]"

text \<open>
  What the script prints with \<open>log.info\<close>, one constructor per message, carrying the
  paths and line texts that the message shows.
\<close>

datatype message =
    No_Staged_Files
  | Commit_Blocked
  | Protected_File string
  | Protected_Explanation
  | Log_Detected string string
  | Remove_Debug_Logs
  | No_Unwanted_Logs
  | Removed string string
  | Fixed_And_Restaged "string list"
  | No_Changes_Needed

text \<open>
  What the script does to its surroundings, in order: the per-file
  \<open>git diff --cached\<close> it runs, the files it writes, the \<open>git add\<close> it runs.
\<close>

datatype effect =
    Git_Diff_Cached string
  | Write_Text string string
  | Git_Add "string list"

text \<open>
  The working tree maps a path to the text of the file there, as \<open>read_text\<close> returns
  it and \<open>write_text\<close> stores it; \<open>None\<close> is a path that does not exist. A path
  that exists is a text file: the script reads it as one.
\<close>

record world =
  files :: "string \<rightharpoonup> string"
  printed :: "message list"
  effects :: "effect list"

definition log_info :: "message \<Rightarrow> world \<Rightarrow> world" where
  "log_info m w = w\<lparr>printed := printed w @ [m]\<rparr>"

definition perform :: "effect \<Rightarrow> world \<Rightarrow> world" where
  "perform e w = w\<lparr>effects := effects w @ [e]\<rparr>"

definition write_text :: "string \<Rightarrow> string \<Rightarrow> world \<Rightarrow> world" where
  "write_text file text w = perform (Write_Text file text) (w\<lparr>files := (files w)(file \<mapsto> text)\<rparr>)"

text \<open>
  \<open>subprocess.run\<close> without \<open>check=True\<close>: it raises when the program cannot be
  started, and otherwise returns the exit status and the captured standard output,
  whatever the exit status is.
\<close>

datatype proc = Not_Started | Completed int string

datatype error = OSError

definition get_staged_files :: "proc \<Rightarrow> error + string list" where
  "get_staged_files result =
     (case result of
        Not_Started \<Rightarrow> Inl OSError
      | Completed returncode stdout \<Rightarrow> Inr (splitlines (strip stdout)))"

definition is_protected :: "string \<Rightarrow> bool" where
  "is_protected file = list_ex (\<lambda>path. prefix path file) PROTECTED_PATHS"

text \<open>The second component is the status of \<open>sys.exit\<close> when it is called.\<close>

definition block_if_protected :: "string list \<Rightarrow> world \<Rightarrow> world \<times> int option" where
  "block_if_protected fs w =
     (let protected = filter is_protected fs in
      if protected \<noteq> [] then
        (log_info Protected_Explanation
           (fold (\<lambda>f. log_info (Protected_File f)) protected (log_info Commit_Blocked w)),
         Some 1)
      else (w, None))"

definition added_lines :: "string \<Rightarrow> string list" where
  "added_lines stdout =
     filter (\<lambda>line. prefix ''+'' line \<and> \<not> prefix ''+++'' line) (splitlines stdout)"

text \<open>\<open>pattern.search(line)\<close>, for the pattern compiled from the joined scan catalogue.\<close>

definition pattern_search :: "string \<Rightarrow> bool" where
  "pattern_search line = re_search (alternatives LOG_PATTERNS) line"

definition scan_line :: "string \<Rightarrow> string \<Rightarrow> world \<times> bool \<Rightarrow> world \<times> bool" where
  "scan_line file line st =
     (if pattern_search line
      then (log_info (Log_Detected file line) (fst st), True)
      else st)"

text \<open>
  One round of the loop of \<open>check_for_logs\<close>; \<open>diff file\<close> is the standard output of
  \<open>git diff --cached file\<close>.
\<close>

definition scan_file :: "(string \<Rightarrow> string) \<Rightarrow> string \<Rightarrow> world \<times> bool \<Rightarrow> world \<times> bool" where
  "scan_file diff file st =
     (if is_protected file then st
      else if files (fst st) file = None then st
      else fold (scan_line file) (added_lines (diff file))
             (perform (Git_Diff_Cached file) (fst st), snd st))"

definition check_for_logs :: "(string \<Rightarrow> string) \<Rightarrow> string list \<Rightarrow> world \<Rightarrow> world \<times> bool" where
  "check_for_logs diff fs w = fold (scan_file diff) fs (w, False)"

text \<open>\<open>any(p.match(line) for p in fix_patterns)\<close>.\<close>

definition any_fix_match :: "string \<Rightarrow> bool" where
  "any_fix_match line = list_ex (\<lambda>p. re_match p line) FIX_PATTERNS"

definition fix_line ::
  "string \<Rightarrow> string \<Rightarrow> world \<times> string list \<times> bool \<Rightarrow> world \<times> string list \<times> bool" where
  "fix_line file line st =
     (case st of (w, new_lines, modified) \<Rightarrow>
        if any_fix_match line
        then (log_info (Removed (strip line) file) w, new_lines, True)
        else (w, new_lines @ [line], modified))"

text \<open>One round of the loop of \<open>auto_fix_logs\<close>.\<close>

definition fix_file :: "string \<Rightarrow> world \<times> string list \<Rightarrow> world \<times> string list" where
  "fix_file file st =
     (case st of (w, fixed_files) \<Rightarrow>
        if is_protected file then st
        else case files w file of
          None \<Rightarrow> st
        | Some text \<Rightarrow>
            (case fold (fix_line file) (splitlines text) (w, [], False) of
               (w', new_lines, modified) \<Rightarrow>
                 if modified
                 then (write_text file (join_lines new_lines @ [CHR 0x0A]) w',
                       fixed_files @ [file])
                 else (w', fixed_files)))"

definition auto_fix_logs :: "string list \<Rightarrow> world \<Rightarrow> world" where
  "auto_fix_logs fs w =
     (case fold fix_file fs (w, []) of
        (w', fixed_files) \<Rightarrow>
          if fixed_files \<noteq> []
          then log_info (Fixed_And_Restaged fixed_files) (perform (Git_Add fixed_files) w')
          else log_info No_Changes_Needed w')"

text \<open>
  The script's entry point: \<open>fix\<close> is the \<open>--fix\<close> flag, \<open>query\<close> the outcome of
  \<open>git diff --cached --name-only\<close>. The result is the final world and the exit status,
  or the exception that ended the run.
\<close>

definition main ::
  "bool \<Rightarrow> proc \<Rightarrow> (string \<Rightarrow> string) \<Rightarrow> world \<Rightarrow> error + world \<times> int" where
  "main fix query diff w =
     (case get_staged_files query of
        Inl e \<Rightarrow> Inl e
      | Inr staged_files \<Rightarrow>
          if staged_files = [] then Inr (log_info No_Staged_Files w, 0)
          else (case block_if_protected staged_files w of
                  (w1, Some status) \<Rightarrow> Inr (w1, status)
                | (w1, None) \<Rightarrow>
                    if fix then Inr (auto_fix_logs staged_files w1, 0)
                    else (case check_for_logs diff staged_files w1 of
                            (w2, has_logs) \<Rightarrow>
                              if has_logs then Inr (log_info Remove_Debug_Logs w2, 1)
                              else Inr (log_info No_Unwanted_Logs w2, 0))))"

section \<open>Debug forms in a line\<close>

text \<open>
  The text \<open>t\<close> starts with \<open>w\<close>, letter case ignored; the text \<open>t\<close> ends with \<open>w\<close>,
  letter case ignored.
\<close>

definition starts_ci :: "string \<Rightarrow> string \<Rightarrow> bool" where
  "starts_ci w t = (length w \<le> length t \<and> map to_lower (take (length w) t) = map to_lower w)"

definition ends_ci :: "string \<Rightarrow> string \<Rightarrow> bool" where
  "ends_ci w t = starts_ci (rev w) (rev t)"

text \<open>An opening parenthesis comes next, after optional whitespace.\<close>

definition then_paren :: "string \<Rightarrow> bool" where
  "then_paren t = prefix ''('' (dropWhile is_space t)"

text \<open>A whitespace character comes next.\<close>

definition then_space :: "string \<Rightarrow> bool" where
  "then_space t = (case t of [] \<Rightarrow> False | c # _ \<Rightarrow> is_space c)"

text \<open>The text so far does not end in a word character, so that a word can start here.\<close>

definition word_start :: "string \<Rightarrow> bool" where
  "word_start before = (before = [] \<or> \<not> is_word (last before))"

subsection \<open>The forms that the scan patterns recognise\<close>

text \<open>
  \<open>debug_form before t\<close>: the scan patterns recognise a debug form at the place of a
  line that has \<open>before\<close> to its left and \<open>t\<close> from there on. The forms are: the text
  \<open>console.log\<close>, whatever surrounds it; \<open>print\<close> at the start of a word, optional
  whitespace and an opening parenthesis; the text \<open>System.out.println\<close>, whatever
  surrounds it; \<open>echo\<close> at the start of a word and at least one whitespace character;
  \<open>log\<close> at the start of a word, optional whitespace and an opening parenthesis, when
  \<open>logger.\<close> does not stand directly before it.
\<close>

definition debug_form :: "string \<Rightarrow> string \<Rightarrow> bool" where
  "debug_form before t =
     (starts_ci ''console.log'' t \<or>
      (word_start before \<and> starts_ci ''print'' t \<and> then_paren (drop 5 t)) \<or>
      starts_ci ''System.out.println'' t \<or>
      (word_start before \<and> starts_ci ''echo'' t \<and> then_space (drop 4 t)) \<or>
      (word_start before \<and> \<not> ends_ci ''logger.'' before \<and> starts_ci ''log'' t \<and>
       then_paren (drop 3 t)))"

subsection \<open>The forms as the specification words them\<close>

text \<open>
  The specification speaks of calls and of a shell echo statement. A call of a name is
  the name, optional whitespace and an opening parenthesis. A shell echo statement is
  the word \<open>echo\<close>, alone or with what it prints: \<open>echo\<close> at the start of a word,
  with no word character after it.
\<close>

definition call_of :: "string \<Rightarrow> string \<Rightarrow> bool" where
  "call_of name t = (starts_ci name t \<and> then_paren (drop (length name) t))"

definition echo_statement :: "string \<Rightarrow> string \<Rightarrow> bool" where
  "echo_statement before t =
     (word_start before \<and> starts_ci ''echo'' t \<and> \<not> word_after (drop 4 t))"

text \<open>
  \<open>claimed_form before t\<close>: one of the five forms of the specification starts at the
  place of a line that has \<open>before\<close> to its left and \<open>t\<close> from there on: a
  \<open>console.log\<close> call, a \<open>print\<close> call, a \<open>System.out.println\<close> call, a shell echo
  statement, or a \<open>log\<close> call that does not directly follow \<open>logger.\<close>.
  \<open>claimed_flagged line\<close>: the line starts with the marker \<open>+\<close> and such a form
  starts somewhere after the marker.
\<close>

definition claimed_form :: "string \<Rightarrow> string \<Rightarrow> bool" where
  "claimed_form before t =
     (call_of ''console.log'' t \<or>
      (word_start before \<and> call_of ''print'' t) \<or>
      call_of ''System.out.println'' t \<or>
      echo_statement before t \<or>
      (word_start before \<and> \<not> ends_ci ''logger.'' before \<and> call_of ''log'' t))"

definition claimed_flagged :: "string \<Rightarrow> bool" where
  "claimed_flagged line =
     (case line of
        [] \<Rightarrow> False
      | c # rest \<Rightarrow>
          c = CHR ''+'' \<and>
          list_ex (\<lambda>p. claimed_form (rev (fst p)) (snd p)) (positions [c] rest))"

subsection \<open>The forms that the fix patterns recognise\<close>

text \<open>
  \<open>fix_form t\<close>: the text \<open>t\<close> starts with one of the five debug forms, as fix mode reads
  them: \<open>console.log\<close>, \<open>print\<close> with its parenthesis, \<open>System.out.println\<close>, \<open>echo\<close>
  and whitespace, \<open>log\<close> with its parenthesis.
\<close>

definition fix_form :: "string \<Rightarrow> bool" where
  "fix_form t =
     (starts_ci ''console.log'' t \<or>
      (starts_ci ''print'' t \<and> then_paren (drop 5 t)) \<or>
      starts_ci ''System.out.println'' t \<or>
      (starts_ci ''echo'' t \<and> then_space (drop 4 t)) \<or>
      (starts_ci ''log'' t \<and> then_paren (drop 3 t)))"

section \<open>What a run reads and removes\<close>

text \<open>
  The files that scan mode looks at: not protected, and present in the working tree.
  The lines of the staged diff of a file that scan mode reports.
\<close>

definition scanned :: "world \<Rightarrow> string \<Rightarrow> bool" where
  "scanned w file = (\<not> is_protected file \<and> files w file \<noteq> None)"

definition detections :: "(string \<Rightarrow> string) \<Rightarrow> string \<Rightarrow> string list" where
  "detections diff file = filter pattern_search (added_lines (diff file))"

text \<open>
  For the text of a file: the lines that fix mode drops, the lines that it keeps,
  whether it drops any, and the text that it writes when it does.
\<close>

definition dropped_lines :: "string \<Rightarrow> string list" where
  "dropped_lines text = filter any_fix_match (splitlines text)"

definition kept_lines :: "string \<Rightarrow> string list" where
  "kept_lines text = filter (\<lambda>line. \<not> any_fix_match line) (splitlines text)"

definition has_fix_match :: "string \<Rightarrow> bool" where
  "has_fix_match text = list_ex any_fix_match (splitlines text)"

definition rewritten :: "string \<Rightarrow> string" where
  "rewritten text = join_lines (kept_lines text) @ [CHR 0x0A]"

text \<open>The files that fix mode rewrites: not protected, present, with a line to drop.\<close>

definition to_fix :: "world \<Rightarrow> string \<Rightarrow> bool" where
  "to_fix w file =
     (\<not> is_protected file \<and>
      (case files w file of None \<Rightarrow> False | Some text \<Rightarrow> has_fix_match text))"

text \<open>
  The world after fix mode has rewritten the files \<open>fixed\<close> of the world \<open>w\<close>, one after
  the other: each holds its kept lines, each dropped line has been reported, each file
  has been written once.
\<close>

definition removals :: "world \<Rightarrow> string \<Rightarrow> message list" where
  "removals w file = map (\<lambda>line. Removed (strip line) file) (dropped_lines (the (files w file)))"

definition apply_fixes :: "world \<Rightarrow> string list \<Rightarrow> world" where
  "apply_fixes w fixed =
     w\<lparr>files := (\<lambda>p. if p \<in> set fixed then Some (rewritten (the (files w p))) else files w p),
       printed := printed w @ concat (map (removals w) fixed),
       effects := effects w @ map (\<lambda>f. Write_Text f (rewritten (the (files w f)))) fixed\<rparr>"

text \<open>
  The query for the staged files has failed when git could not be started or ended
  with a status other than 0.
\<close>

definition query_failed :: "proc \<Rightarrow> bool" where
  "query_failed q = (case q of Not_Started \<Rightarrow> True | Completed returncode stdout \<Rightarrow> returncode \<noteq> 0)"

section \<open>Sample inputs\<close>

definition no_diff :: "string \<Rightarrow> string" where
  "no_diff file = []"

definition empty_world :: world where
  "empty_world = \<lparr>files = Map.empty, printed = [], effects = []\<rparr>"

text \<open>
  A working tree with a script that holds a debug line, an empty file, a file that is
  one debug line, and a protected settings file that holds a debug line as well.
\<close>

definition sample_tree :: "string \<rightharpoonup> string" where
  "sample_tree =
     [''app.js'' \<mapsto> ''let a = 1;\<newline>  console.log(a);\<newline>a += 1;\<newline>'',
      ''empty.py'' \<mapsto> [],
      ''debug.py'' \<mapsto> ''print(x)\<newline>'',
      ''src/config/settings.py'' \<mapsto> ''print(secret)\<newline>'']"

definition sample_world :: world where
  "sample_world = \<lparr>files = sample_tree, printed = [], effects = []\<rparr>"

text \<open>The staged diff of \<open>app.js\<close> when the debug line is what the commit adds.\<close>

definition sample_diff :: "string \<Rightarrow> string" where
  "sample_diff file =
     (if file = ''app.js''
      then ''diff --git a/app.js b/app.js\<newline>index 1111111..2222222 100644\<newline>--- a/app.js\<newline>+++ b/app.js\<newline>@@ -1,2 +1,3 @@\<newline> let a = 1;\<newline>+  console.log(a);\<newline> a += 1;\<newline>''
      else [])"

text \<open>
  A staged diff of \<open>app.js\<close> whose hunk adds the two lines \<open>++i; console.log(i);\<close> and
  \<open>i += 1;\<close>.
\<close>

definition increment_diff :: "string \<Rightarrow> string" where
  "increment_diff file =
     ''diff --git a/app.js b/app.js\<newline>index 1111111..2222222 100644\<newline>--- a/app.js\<newline>+++ b/app.js\<newline>@@ -1 +1,3 @@\<newline> let i = 0;\<newline>+++i; console.log(i);\<newline>+i += 1;\<newline>''"

text \<open>A working tree whose one file is empty.\<close>

definition empty_file_world :: world where
  "empty_file_world = \<lparr>files = [''empty.py'' \<mapsto> []], printed = [], effects = []\<rparr>"

section \<open>Properties of the model\<close>

lemma code_inj: "code x = code y \<longleftrightarrow> x = y"
  by (simp add: code_def)

lemma split_from_no_break:
  "l \<in> set (split_from acc s) \<Longrightarrow> \<forall>c\<in>set acc. \<not> is_linebreak c \<Longrightarrow> \<forall>c\<in>set l. \<not> is_linebreak c"
proof (induction acc s rule: split_from.induct)
  case (1 acc)
  then show ?case by (auto split: if_splits)
next
  case (2 acc c)
  then show ?case by (auto split: if_splits)
next
  case (3 acc c d cs)
  show ?case
  proof (cases "c = CHR 0x0D \<and> d = CHR 0x0A")
    case True
    then have "l = rev acc \<or> l \<in> set (split_from [] cs)" using "3.prems"(1) by auto
    then show ?thesis using "3.IH"(1)[OF True] "3.prems"(2) by auto
  next
    case False
    show ?thesis
    proof (cases "is_linebreak c")
      case True
      then have "l = rev acc \<or> l \<in> set (split_from [] (d # cs))" using "3.prems"(1) False by auto
      then show ?thesis using "3.IH"(2)[OF False True] "3.prems"(2) by auto
    next
      case nb: False
      then have "l \<in> set (split_from (c # acc) (d # cs))" using "3.prems"(1) False by auto
      then show ?thesis using "3.IH"(3)[OF False nb] "3.prems"(2) nb by auto
    qed
  qed
qed

lemma splitlines_no_break: "l \<in> set (splitlines s) \<Longrightarrow> c \<in> set l \<Longrightarrow> \<not> is_linebreak c"
  unfolding splitlines_def using split_from_no_break[of l "[]" s] by auto

lemma linebreak_LF: "is_linebreak (CHR 0x0A)"
  by (simp add: is_linebreak_def code_def)

lemma linebreak_CR: "is_linebreak (CHR 0x0D)"
  by (simp add: is_linebreak_def code_def)

lemma split_from_line:
  "\<forall>c\<in>set l. \<not> is_linebreak c \<Longrightarrow>
   split_from acc (l @ CHR 0x0A # rest) = (rev acc @ l) # split_from [] rest"
proof (induction l arbitrary: acc)
  case Nil
  show ?case by (cases rest) (simp_all add: linebreak_LF)
next
  case (Cons x xs)
  have x: "\<not> is_linebreak x" and xs: "\<forall>c\<in>set xs. \<not> is_linebreak c"
    using Cons.prems by simp_all
  have ncr: "x \<noteq> CHR 0x0D" using x linebreak_CR by auto
  obtain d ds where d: "xs @ CHR 0x0A # rest = d # ds" by (cases "xs @ CHR 0x0A # rest") auto
  have "split_from acc ((x # xs) @ CHR 0x0A # rest) = split_from (x # acc) (xs @ CHR 0x0A # rest)"
    using x ncr d by simp
  also have "\<dots> = (rev (x # acc) @ xs) # split_from [] rest"
    using Cons.IH[OF xs] by simp
  finally show ?case by simp
qed

lemma splitlines_join:
  "ls \<noteq> [] \<Longrightarrow> \<forall>l\<in>set ls. \<forall>c\<in>set l. \<not> is_linebreak c \<Longrightarrow>
   splitlines (join_lines ls @ [CHR 0x0A]) = ls"
proof (induction ls rule: join_lines.induct)
  case 1
  then show ?case by simp
next
  case (2 l)
  then show ?case using split_from_line[of l "[]" "[]"] by (simp add: splitlines_def)
next
  case (3 l m ls)
  have "splitlines (join_lines (l # m # ls) @ [CHR 0x0A]) =
        split_from [] (l @ CHR 0x0A # (join_lines (m # ls) @ [CHR 0x0A]))"
    by (simp add: splitlines_def)
  also have "\<dots> = l # split_from [] (join_lines (m # ls) @ [CHR 0x0A])"
    using split_from_line[of l "[]"] "3.prems" by simp
  also have "\<dots> = l # m # ls"
    using "3.IH" "3.prems" by (simp add: splitlines_def)
  finally show ?case .
qed

lemma splitlines_newline: "splitlines [CHR 0x0A] = [[]]"
  by (simp add: splitlines_def linebreak_LF)

subsection \<open>The matcher\<close>

lemma lit_eq:
  "lit w b a = (if starts_ci w a then [(rev (take (length w) a) @ b, drop (length w) a)] else [])"
  by (induction w b a rule: lit.induct) (auto simp: starts_ci_def)

lemma lit_nonempty: "lit w b a \<noteq> [] \<longleftrightarrow> starts_ci w a"
  by (simp add: lit_eq)

lemma star_set:
  "set (star k b a) = {(rev u @ b, v) | u v. a = u @ v \<and> (\<forall>x\<in>set u. in_class k x)}"
proof (induction a arbitrary: b)
  case Nil
  then show ?case by auto
next
  case (Cons x xs)
  show ?case
  proof (intro set_eqI iffI)
    fix p assume "p \<in> set (star k b (x # xs))"
    then consider "in_class k x" "p \<in> set (star k (x # b) xs)" | "p = (b, x # xs)"
      by (auto split: if_splits)
    then show "p \<in> {(rev u @ b, v) | u v. x # xs = u @ v \<and> (\<forall>x\<in>set u. in_class k x)}"
    proof cases
      case 1
      then obtain u v where "p = (rev u @ x # b, v)" "xs = u @ v" "\<forall>y\<in>set u. in_class k y"
        using Cons.IH[of "x # b"] by auto
      then have "p = (rev (x # u) @ b, v) \<and> x # xs = (x # u) @ v \<and> (\<forall>y\<in>set (x # u). in_class k y)"
        using 1(1) by simp
      then show ?thesis by blast
    next
      case 2
      then have "p = (rev [] @ b, x # xs) \<and> x # xs = [] @ (x # xs) \<and> (\<forall>y\<in>set []. in_class k y)"
        by simp
      then show ?thesis by blast
    qed
  next
    fix p assume "p \<in> {(rev u @ b, v) | u v. x # xs = u @ v \<and> (\<forall>x\<in>set u. in_class k x)}"
    then obtain u v where p: "p = (rev u @ b, v)" "x # xs = u @ v" "\<forall>y\<in>set u. in_class k y"
      by auto
    show "p \<in> set (star k b (x # xs))"
    proof (cases u)
      case Nil
      then have "p = (b, x # xs)" using p by simp
      then show ?thesis by simp
    next
      case (Cons y ys)
      then have "y = x" "xs = ys @ v" "in_class k x" "\<forall>z\<in>set ys. in_class k z"
        using p by auto
      then have "(rev ys @ x # b, v) \<in> set (star k (x # b) xs)"
        using Cons.IH[of "x # b"] by auto
      then show ?thesis using p Cons \<open>y = x\<close> \<open>in_class k x\<close> by simp
    qed
  qed
qed

lemma star_nonempty: "star k b a \<noteq> []"
  by (cases a) simp_all

lemma run_Cat_nonempty: "run (Cat r s) p \<noteq> [] \<longleftrightarrow> (\<exists>q\<in>set (run r p). run s q \<noteq> [])"
  by auto

lemma run_Alt_nonempty: "run (Alt r s) p \<noteq> [] \<longleftrightarrow> run r p \<noteq> [] \<or> run s p \<noteq> []"
  by simp

lemma run_Str_Cat:
  "run (Cat (Str w) r) (b, a) \<noteq> [] \<longleftrightarrow>
   starts_ci w a \<and> run r (rev (take (length w) a) @ b, drop (length w) a) \<noteq> []"
  by (simp add: lit_eq)

lemma run_Star_Cat:
  "run (Cat (Star k) r) (b, a) \<noteq> [] \<longleftrightarrow>
   (\<exists>u v. a = u @ v \<and> (\<forall>x\<in>set u. in_class k x) \<and> run r (rev u @ b, v) \<noteq> [])"
  unfolding run_Cat_nonempty by (simp add: star_set) blast

lemma run_Bol_Cat: "run (Cat Bol r) (b, a) \<noteq> [] \<longleftrightarrow> b = [] \<and> run r ([], a) \<noteq> []"
  by simp

lemma run_Boundary_Cat:
  "run (Cat Word_Boundary r) (b, a) \<noteq> [] \<longleftrightarrow> word_before b \<noteq> word_after a \<and> run r (b, a) \<noteq> []"
  by simp

lemma run_Not_Behind_Cat:
  "run (Cat (Not_Behind w) r) (b, a) \<noteq> [] \<longleftrightarrow> \<not> starts_ci (rev w) b \<and> run r (b, a) \<noteq> []"
  by (simp add: lit_eq)

lemma positions_set: "set (positions b a) = {(rev u @ b, v) | u v. a = u @ v}"
proof (induction a arbitrary: b)
  case Nil
  then show ?case by auto
next
  case (Cons x xs)
  have "{(rev u @ b, v) | u v. x # xs = u @ v} =
        insert (b, x # xs) {(rev u @ x # b, v) | u v. xs = u @ v}"
  proof (intro set_eqI iffI)
    fix p assume "p \<in> {(rev u @ b, v) | u v. x # xs = u @ v}"
    then obtain u v where p: "p = (rev u @ b, v)" "x # xs = u @ v" by auto
    show "p \<in> insert (b, x # xs) {(rev u @ x # b, v) | u v. xs = u @ v}"
    proof (cases u)
      case Nil
      then show ?thesis using p by simp
    next
      case (Cons y ys)
      then have "p = (rev ys @ x # b, v) \<and> xs = ys @ v" using p by simp
      then show ?thesis by blast
    qed
  next
    fix p assume "p \<in> insert (b, x # xs) {(rev u @ x # b, v) | u v. xs = u @ v}"
    then consider "p = (b, x # xs)" | u v where "p = (rev u @ x # b, v)" "xs = u @ v" by auto
    then show "p \<in> {(rev u @ b, v) | u v. x # xs = u @ v}"
    proof cases
      case 1
      then have "p = (rev [] @ b, x # xs) \<and> x # xs = [] @ x # xs" by simp
      then show ?thesis by blast
    next
      case 2
      then have "p = (rev (x # u) @ b, v) \<and> x # xs = (x # u) @ v" by simp
      then show ?thesis by blast
    qed
  qed
  then show ?case using Cons.IH[of "x # b"] by simp
qed

text \<open>A pattern that begins with \<open>^\<close> can only match at the start of the subject.\<close>

lemma search_anchored:
  assumes "\<And>b a. b \<noteq> [] \<Longrightarrow> run r (b, a) = []"
  shows "re_search r s \<longleftrightarrow> run r ([], s) \<noteq> []"
proof
  assume "re_search r s"
  then obtain p where p: "p \<in> set (positions [] s)" "run r p \<noteq> []"
    by (auto simp: re_search_def list_ex_iff)
  then obtain u v where "p = (rev u, v)" "s = u @ v" by (auto simp: positions_set)
  with p(2) assms[of "rev u" v] show "run r ([], s) \<noteq> []" by (cases u) auto
next
  assume "run r ([], s) \<noteq> []"
  moreover have "([], s) \<in> set (positions [] s)" by (cases s) simp_all
  ultimately show "re_search r s" by (auto simp: re_search_def list_ex_iff)
qed

subsection \<open>Characters of the patterns\<close>

lemma lower_plus: "to_lower x = to_lower CHR ''+'' \<longleftrightarrow> x = CHR ''+''"
proof -
  have "code x = 43 \<longleftrightarrow> code x = code CHR ''+''" by (simp add: code_def)
  then show ?thesis by (auto simp: to_lower_def code_inj) (simp_all add: code_def)
qed

lemma lower_paren: "to_lower x = to_lower CHR ''('' \<longleftrightarrow> x = CHR ''(''"
proof -
  have "code x = 40 \<longleftrightarrow> code x = code CHR ''(''" by (simp add: code_def)
  then show ?thesis by (auto simp: to_lower_def code_inj) (simp_all add: code_def)
qed

lemma paren_not_space: "\<not> is_space CHR ''(''"
  by (simp add: is_space_def code_def)

lemma lower_letter_word:
  "to_lower x = to_lower c \<Longrightarrow> 97 \<le> code c \<Longrightarrow> code c \<le> 122 \<Longrightarrow> is_word x"
  by (auto simp: to_lower_def is_word_def Let_def split: if_splits)

lemma starts_ci_Cons:
  "starts_ci (c # w) t \<longleftrightarrow> (\<exists>x xs. t = x # xs \<and> to_lower x = to_lower c \<and> starts_ci w xs)"
  by (cases t) (auto simp: starts_ci_def)

lemma starts_ci_Nil: "starts_ci [] t"
  by (simp add: starts_ci_def)

lemma starts_letter_word_after:
  "starts_ci (c # w) t \<Longrightarrow> 97 \<le> code c \<Longrightarrow> code c \<le> 122 \<Longrightarrow> word_after t"
proof -
  assume s: "starts_ci (c # w) t" and c: "97 \<le> code c" "code c \<le> 122"
  from s obtain x xs where "t = x # xs" "to_lower x = to_lower c"
    unfolding starts_ci_Cons by blast
  then show "word_after t"
    using lower_letter_word[OF _ c] by (simp add: word_after_def)
qed

lemma word_before_rev: "word_before (rev before) \<longleftrightarrow> \<not> word_start before"
  by (cases before rule: rev_cases) (simp_all add: word_before_def word_start_def)

subsection \<open>The tails of the scan patterns\<close>

lemma run_Str_nonempty: "run (Str w) (b, t) \<noteq> [] \<longleftrightarrow> starts_ci w t"
  by (simp add: lit_eq)

lemma run_Plus_Space: "run (Plus Space) (b, t) \<noteq> [] \<longleftrightarrow> then_space t"
  by (cases t) (simp_all add: then_space_def star_nonempty)

lemma run_Star_Space_Cat:
  "run (Cat (Star Space) r) (b, a) \<noteq> [] \<longleftrightarrow>
   (\<exists>u v. a = u @ v \<and> (\<forall>x\<in>set u. is_space x) \<and> run r (rev u @ b, v) \<noteq> [])"
  unfolding run_Star_Cat in_class.simps ..

lemma run_paren: "run (Cat (Star Space) (Str ''('')) (b, t) \<noteq> [] \<longleftrightarrow> then_paren t"
proof
  assume "run (Cat (Star Space) (Str ''('')) (b, t) \<noteq> []"
  then obtain u v where uv: "t = u @ v" "\<forall>x\<in>set u. is_space x" "starts_ci ''('' v"
    unfolding run_Star_Space_Cat run_Str_nonempty by blast
  from uv(3) obtain v' where v: "v = CHR ''('' # v'"
    unfolding starts_ci_Cons lower_paren by blast
  have "dropWhile is_space u = []"
    using uv(2) by simp
  then have "dropWhile is_space t = v"
    unfolding uv(1) v using paren_not_space by (simp add: dropWhile_append3)
  then show "then_paren t" by (simp add: then_paren_def v)
next
  assume "then_paren t"
  then obtain v' where v: "dropWhile is_space t = CHR ''('' # v'"
    unfolding then_paren_def prefix_def by auto
  have 1: "t = takeWhile is_space t @ CHR ''('' # v'"
    using v takeWhile_dropWhile_id[of is_space t] by simp
  have 2: "\<forall>x\<in>set (takeWhile is_space t). is_space x"
    using set_takeWhileD by fastforce
  have 3: "starts_ci ''('' (CHR ''('' # v')"
    by (simp add: starts_ci_def)
  show "run (Cat (Star Space) (Str ''('')) (b, t) \<noteq> []"
    unfolding run_Star_Space_Cat run_Str_nonempty using 1 2 3 by blast
qed

lemma run_call:
  "run (Cat (Str w) (Cat (Star Space) (Str ''(''))) (b, t) \<noteq> [] \<longleftrightarrow>
   starts_ci w t \<and> then_paren (drop (length w) t)"
  unfolding run_Str_Cat run_paren by simp

lemma tail_print:
  "run (Cat Word_Boundary (Cat (Str ''print'') (Cat (Star Space) (Str ''(''))))
     (rev before, t) \<noteq> [] \<longleftrightarrow>
   word_start before \<and> starts_ci ''print'' t \<and> then_paren (drop 5 t)"
proof -
  have w: "starts_ci ''print'' t \<Longrightarrow> word_after t"
    by (rule starts_letter_word_after, assumption) (simp_all add: code_def)
  have n: "length ''print'' = 5" by simp
  show ?thesis
    unfolding run_Boundary_Cat run_call n using w by (auto simp: word_before_rev)
qed

lemma tail_echo:
  "run (Cat Word_Boundary (Cat (Str ''echo'') (Plus Space))) (rev before, t) \<noteq> [] \<longleftrightarrow>
   word_start before \<and> starts_ci ''echo'' t \<and> then_space (drop 4 t)"
proof -
  have w: "starts_ci ''echo'' t \<Longrightarrow> word_after t"
    by (rule starts_letter_word_after, assumption) (simp_all add: code_def)
  have n: "length ''echo'' = 4" by simp
  show ?thesis
    unfolding run_Boundary_Cat run_Str_Cat run_Plus_Space n using w
    by (auto simp: word_before_rev)
qed

lemma tail_log:
  "run (Cat (Not_Behind ''logger.'')
          (Cat Word_Boundary (Cat (Str ''log'') (Cat (Star Space) (Str ''('')))))
     (rev before, t) \<noteq> [] \<longleftrightarrow>
   word_start before \<and> \<not> ends_ci ''logger.'' before \<and> starts_ci ''log'' t \<and> then_paren (drop 3 t)"
proof -
  have w: "starts_ci ''log'' t \<Longrightarrow> word_after t"
    by (rule starts_letter_word_after, assumption) (simp_all add: code_def)
  have n: "length ''log'' = 3" by simp
  show ?thesis
    unfolding run_Not_Behind_Cat run_Boundary_Cat run_call n ends_ci_def using w
    by (auto simp: word_before_rev)
qed

subsection \<open>The scan patterns\<close>

lemma scan_prefix:
  "run (Cat Bol (Cat (Str ''+'') (Cat (Star Dot) T))) ([], line) \<noteq> [] \<longleftrightarrow>
   (\<exists>u t. line = CHR ''+'' # u @ t \<and> CHR 0x0A \<notin> set u \<and> run T (rev (CHR ''+'' # u), t) \<noteq> [])"
proof -
  have "run (Cat Bol (Cat (Str ''+'') (Cat (Star Dot) T))) ([], line) \<noteq> [] \<longleftrightarrow>
        starts_ci ''+'' line \<and> run (Cat (Star Dot) T) (rev (take (length ''+'') line) @ [], drop (length ''+'') line) \<noteq> []"
    unfolding run_Bol_Cat run_Str_Cat by simp
  also have "\<dots> \<longleftrightarrow> (\<exists>rest. line = CHR ''+'' # rest \<and> run (Cat (Star Dot) T) ([CHR ''+''], rest) \<noteq> [])"
    by (cases line) (auto simp add: starts_ci_Cons starts_ci_Nil lower_plus simp del: run.simps)
  also have "\<dots> \<longleftrightarrow> (\<exists>u t. line = CHR ''+'' # u @ t \<and> CHR 0x0A \<notin> set u \<and>
                        run T (rev (CHR ''+'' # u), t) \<noteq> [])"
    unfolding run_Star_Cat by (simp del: run.simps) blast
  finally show ?thesis .
qed

lemma scan_anchored:
  "b \<noteq> [] \<Longrightarrow> run (alternatives LOG_PATTERNS) (b, a) = []"
  unfolding LOG_PATTERNS_def alternatives.simps seq.simps by simp

lemma ex_disj5:
  "(\<exists>u t. P u t \<and> Q u t \<and> A u t) \<or> (\<exists>u t. P u t \<and> Q u t \<and> B u t) \<or>
   (\<exists>u t. P u t \<and> Q u t \<and> C u t) \<or> (\<exists>u t. P u t \<and> Q u t \<and> D u t) \<or>
   (\<exists>u t. P u t \<and> Q u t \<and> E u t) \<longleftrightarrow>
   (\<exists>u t. P u t \<and> Q u t \<and> (A u t \<or> B u t \<or> C u t \<or> D u t \<or> E u t))"
  by blast

lemma pattern_search_iff:
  "pattern_search line \<longleftrightarrow>
   (\<exists>u t. line = CHR ''+'' # u @ t \<and> CHR 0x0A \<notin> set u \<and> debug_form (CHR ''+'' # u) t)"
proof -
  have "pattern_search line \<longleftrightarrow> run (alternatives LOG_PATTERNS) ([], line) \<noteq> []"
    unfolding pattern_search_def using scan_anchored by (rule search_anchored)
  also have "\<dots> \<longleftrightarrow>
      (\<exists>u t. line = CHR ''+'' # u @ t \<and> CHR 0x0A \<notin> set u \<and> debug_form (CHR ''+'' # u) t)"
    unfolding LOG_PATTERNS_def alternatives.simps seq.simps run_Alt_nonempty scan_prefix
      run_Str_nonempty tail_print tail_echo tail_log debug_form_def
    by (rule ex_disj5)
  finally show ?thesis .
qed

subsection \<open>Printing and effects\<close>

lemma log_info_simps [simp]:
  "files (log_info m w) = files w"
  "printed (log_info m w) = printed w @ [m]"
  "effects (log_info m w) = effects w"
  by (simp_all add: log_info_def)

lemma perform_simps [simp]:
  "files (perform e w) = files w"
  "printed (perform e w) = printed w"
  "effects (perform e w) = effects w @ [e]"
  by (simp_all add: perform_def)

lemma write_text_simps [simp]:
  "files (write_text f t w) = (files w)(f \<mapsto> t)"
  "printed (write_text f t w) = printed w"
  "effects (write_text f t w) = effects w @ [Write_Text f t]"
  by (simp_all add: write_text_def)

lemma fold_log_info:
  "fold (\<lambda>x. log_info (g x)) xs w = w\<lparr>printed := printed w @ map g xs\<rparr>"
  by (induction xs arbitrary: w) (simp_all add: log_info_def)

lemma block_if_protected_eq:
  "block_if_protected fs w =
     (if list_ex is_protected fs
      then (w\<lparr>printed := printed w @ Commit_Blocked # map Protected_File (filter is_protected fs) @
                 [Protected_Explanation]\<rparr>, Some 1)
      else (w, None))"
proof -
  have "filter is_protected fs \<noteq> [] \<longleftrightarrow> list_ex is_protected fs"
    by (simp add: list_ex_iff filter_empty_conv)
  then show ?thesis
    by (simp add: block_if_protected_def Let_def fold_log_info log_info_def)
qed

subsection \<open>Scan mode\<close>

lemma fold_scan_line:
  "fold (scan_line f) ls (w, h) =
     (w\<lparr>printed := printed w @ map (Log_Detected f) (filter pattern_search ls)\<rparr>,
      h \<or> list_ex pattern_search ls)"
  by (induction ls arbitrary: w h) (simp_all add: scan_line_def log_info_def)

lemma scan_file_eq:
  "scan_file diff f (w, h) =
     (if scanned w f
      then (w\<lparr>printed := printed w @ map (Log_Detected f) (detections diff f),
              effects := effects w @ [Git_Diff_Cached f]\<rparr>,
            h \<or> detections diff f \<noteq> [])
      else (w, h))"
proof -
  have "list_ex pattern_search (added_lines (diff f)) \<longleftrightarrow> detections diff f \<noteq> []"
    by (simp add: detections_def list_ex_iff filter_empty_conv)
  then show ?thesis
    by (auto simp: scan_file_def scanned_def fold_scan_line detections_def perform_def)
qed

lemma fold_scan_file:
  "fold (scan_file diff) fs (w, h) =
     (w\<lparr>printed := printed w @
           concat (map (\<lambda>f. map (Log_Detected f) (detections diff f)) (filter (scanned w) fs)),
         effects := effects w @ map Git_Diff_Cached (filter (scanned w) fs)\<rparr>,
      h \<or> (\<exists>f\<in>set fs. scanned w f \<and> detections diff f \<noteq> []))"
proof (induction fs arbitrary: w h)
  case Nil
  then show ?case by simp
next
  case (Cons f fs)
  show ?case
  proof (cases "scanned w f")
    case False
    then show ?thesis using Cons.IH[of w h] by (simp add: scan_file_eq)
  next
    case True
    let ?w = "w\<lparr>printed := printed w @ map (Log_Detected f) (detections diff f),
                 effects := effects w @ [Git_Diff_Cached f]\<rparr>"
    have s: "scanned ?w = scanned w" by (simp add: scanned_def fun_eq_iff)
    show ?thesis
      using True Cons.IH[of ?w "h \<or> detections diff f \<noteq> []"]
      by (auto simp: scan_file_eq s)
  qed
qed

lemma check_for_logs_eq:
  "check_for_logs diff fs w =
     (w\<lparr>printed := printed w @
           concat (map (\<lambda>f. map (Log_Detected f) (detections diff f)) (filter (scanned w) fs)),
         effects := effects w @ map Git_Diff_Cached (filter (scanned w) fs)\<rparr>,
      \<exists>f\<in>set fs. scanned w f \<and> detections diff f \<noteq> [])"
  by (simp add: check_for_logs_def fold_scan_file)

subsection \<open>Fix mode\<close>

lemma fold_fix_line:
  "fold (fix_line f) ls (w, new, m) =
     (w\<lparr>printed := printed w @ map (\<lambda>l. Removed (strip l) f) (filter any_fix_match ls)\<rparr>,
      new @ filter (\<lambda>l. \<not> any_fix_match l) ls,
      m \<or> list_ex any_fix_match ls)"
  by (induction ls arbitrary: w new m) (simp_all add: fix_line_def log_info_def)

lemma apply_fixes_Nil: "apply_fixes w [] = w"
  by (simp add: apply_fixes_def)

lemma fix_file_eq:
  "fix_file f (w, acc) = (if to_fix w f then (apply_fixes w [f], acc @ [f]) else (w, acc))"
proof (cases "is_protected f")
  case True
  then show ?thesis by (simp add: fix_file_def to_fix_def)
next
  case np: False
  show ?thesis
  proof (cases "files w f")
    case None
    then show ?thesis using np by (simp add: fix_file_def to_fix_def)
  next
    case (Some t)
    show ?thesis
    proof (cases "has_fix_match t")
      case False
      then have "filter any_fix_match (splitlines t) = []"
        by (simp add: has_fix_match_def list_ex_iff filter_empty_conv)
      then show ?thesis
        using np Some False
        by (simp add: fix_file_def to_fix_def fold_fix_line has_fix_match_def)
    next
      case True
      have "apply_fixes w [f] =
            write_text f (join_lines (filter (\<lambda>l. \<not> any_fix_match l) (splitlines t)) @ [CHR 0x0A])
              (w\<lparr>printed := printed w @
                   map (\<lambda>l. Removed (strip l) f) (filter any_fix_match (splitlines t))\<rparr>)"
        using Some
        by (simp add: apply_fixes_def write_text_def perform_def removals_def dropped_lines_def
            rewritten_def kept_lines_def fun_eq_iff)
      then show ?thesis
        using np Some True
        by (simp add: fix_file_def to_fix_def fold_fix_line has_fix_match_def)
    qed
  qed
qed

lemma no_match_empty_line: "\<not> any_fix_match []"
  by (simp add: any_fix_match_def FIX_PATTERNS_def re_match_def)

lemma kept_lines_no_break: "l \<in> set (kept_lines t) \<Longrightarrow> c \<in> set l \<Longrightarrow> \<not> is_linebreak c"
  unfolding kept_lines_def using splitlines_no_break[of l t c] by simp

lemma splitlines_rewritten:
  "splitlines (rewritten t) = (if kept_lines t = [] then [[]] else kept_lines t)"
proof (cases "kept_lines t = []")
  case True
  then show ?thesis by (simp add: rewritten_def splitlines_newline)
next
  case False
  then show ?thesis
    unfolding rewritten_def using splitlines_join[of "kept_lines t"] kept_lines_no_break[of _ t]
    by auto
qed

lemma rewritten_clean: "\<not> has_fix_match (rewritten t)"
  unfolding has_fix_match_def splitlines_rewritten
  by (auto simp: list_ex_iff no_match_empty_line kept_lines_def)

lemma to_fix_apply_one:
  "to_fix (apply_fixes w [f]) g \<longleftrightarrow> g \<noteq> f \<and> to_fix w g"
  by (auto simp: to_fix_def apply_fixes_def rewritten_clean)

lemma files_apply_one: "g \<noteq> f \<Longrightarrow> files (apply_fixes w [f]) g = files w g"
  by (simp add: apply_fixes_def)

lemma apply_fixes_Cons:
  assumes "f \<notin> set fixed"
  shows "apply_fixes (apply_fixes w [f]) fixed = apply_fixes w (f # fixed)"
proof -
  have eq: "\<And>g. g \<in> set fixed \<Longrightarrow> files (apply_fixes w [f]) g = files w g"
    using assms files_apply_one by metis
  have r: "map (removals (apply_fixes w [f])) fixed = map (removals w) fixed"
    by (rule map_cong) (simp_all add: removals_def eq)
  have wr: "map (\<lambda>g. Write_Text g (rewritten (the (files (apply_fixes w [f]) g)))) fixed =
            map (\<lambda>g. Write_Text g (rewritten (the (files w g)))) fixed"
    by (rule map_cong) (simp_all add: eq)
  have fl: "(\<lambda>p. if p \<in> set fixed then Some (rewritten (the (files (apply_fixes w [f]) p)))
                 else files (apply_fixes w [f]) p) =
            (\<lambda>p. if p \<in> set (f # fixed) then Some (rewritten (the (files w p))) else files w p)"
    using assms by (auto simp: fun_eq_iff apply_fixes_def)
  have "apply_fixes (apply_fixes w [f]) fixed =
        (apply_fixes w [f])\<lparr>files := (\<lambda>p. if p \<in> set (f # fixed) then Some (rewritten (the (files w p))) else files w p),
           printed := printed (apply_fixes w [f]) @ concat (map (removals w) fixed),
           effects := effects (apply_fixes w [f]) @
                        map (\<lambda>g. Write_Text g (rewritten (the (files w g)))) fixed\<rparr>"
    unfolding apply_fixes_def[of "apply_fixes w [f]" fixed] r wr fl ..
  also have "\<dots> = apply_fixes w (f # fixed)"
    by (simp add: apply_fixes_def)
  finally show ?thesis .
qed

lemma fold_fix_file:
  "\<exists>fixed. distinct fixed \<and> set fixed = {f \<in> set fs. to_fix w f} \<and>
           fold fix_file fs (w, acc) = (apply_fixes w fixed, acc @ fixed)"
proof (induction fs arbitrary: w acc)
  case Nil
  have "distinct [] \<and> set [] = {f \<in> set []. to_fix w f} \<and>
        fold fix_file [] (w, acc) = (apply_fixes w [], acc @ [])"
    by (simp add: apply_fixes_Nil)
  then show ?case by blast
next
  case (Cons f fs)
  show ?case
  proof (cases "to_fix w f")
    case False
    from Cons.IH[of w acc] obtain fixed where
      fx: "distinct fixed" "set fixed = {g \<in> set fs. to_fix w g}"
        "fold fix_file fs (w, acc) = (apply_fixes w fixed, acc @ fixed)" by blast
    have "set fixed = {g \<in> set (f # fs). to_fix w g}" using fx(2) False by auto
    moreover have "fold fix_file (f # fs) (w, acc) = (apply_fixes w fixed, acc @ fixed)"
      using fx(3) False by (simp add: fix_file_eq)
    ultimately show ?thesis using fx(1) by blast
  next
    case True
    from Cons.IH[of "apply_fixes w [f]" "acc @ [f]"] obtain fixed where
      fx: "distinct fixed" "set fixed = {g \<in> set fs. to_fix (apply_fixes w [f]) g}"
        "fold fix_file fs (apply_fixes w [f], acc @ [f]) =
           (apply_fixes (apply_fixes w [f]) fixed, (acc @ [f]) @ fixed)" by blast
    have nf: "f \<notin> set fixed" using fx(2) by (simp add: to_fix_apply_one)
    have "distinct (f # fixed)" using fx(1) nf by simp
    moreover have "set (f # fixed) = {g \<in> set (f # fs). to_fix w g}"
      using fx(2) True by (auto simp: to_fix_apply_one)
    moreover have "fold fix_file (f # fs) (w, acc) = (apply_fixes w (f # fixed), acc @ f # fixed)"
      using fx(3) True apply_fixes_Cons[OF nf, of w] by (simp add: fix_file_eq)
    ultimately show ?thesis by blast
  qed
qed

lemma fold_fix_file_clean:
  "\<forall>f\<in>set fs. \<not> to_fix w f \<Longrightarrow> fold fix_file fs (w, acc) = (w, acc)"
  by (induction fs) (simp_all add: fix_file_eq)

text \<open>A whole run of \<open>auto_fix_logs\<close>.\<close>

lemma auto_fix_logs_eq:
  "\<exists>fixed. distinct fixed \<and> set fixed = {f \<in> set fs. to_fix w f} \<and>
     auto_fix_logs fs w =
       (if fixed \<noteq> []
        then log_info (Fixed_And_Restaged fixed) (perform (Git_Add fixed) (apply_fixes w fixed))
        else log_info No_Changes_Needed w)"
proof -
  from fold_fix_file[of fs w "[]"] obtain fixed where
    fx: "distinct fixed" "set fixed = {f \<in> set fs. to_fix w f}"
      "fold fix_file fs (w, []) = (apply_fixes w fixed, [] @ fixed)" by blast
  have "auto_fix_logs fs w =
       (if fixed \<noteq> []
        then log_info (Fixed_And_Restaged fixed) (perform (Git_Add fixed) (apply_fixes w fixed))
        else log_info No_Changes_Needed w)"
    using fx(3) by (auto simp: auto_fix_logs_def apply_fixes_Nil)
  then show ?thesis using fx(1,2) by blast
qed

lemma files_auto_fix_logs:
  "files (auto_fix_logs fs w) p =
     (if p \<in> set fs \<and> to_fix w p then Some (rewritten (the (files w p))) else files w p)"
proof -
  from auto_fix_logs_eq[of fs w] obtain fixed where
    fx: "set fixed = {f \<in> set fs. to_fix w f}"
      "auto_fix_logs fs w =
       (if fixed \<noteq> []
        then log_info (Fixed_And_Restaged fixed) (perform (Git_Add fixed) (apply_fixes w fixed))
        else log_info No_Changes_Needed w)" by blast
  show ?thesis
  proof (cases "fixed = []")
    case True
    then show ?thesis using fx by auto
  next
    case False
    then have "files (auto_fix_logs fs w) p = files (apply_fixes w fixed) p"
      using fx(2) by simp
    then show ?thesis using fx(1) by (simp add: apply_fixes_def)
  qed
qed

lemma to_fix_auto_fix_logs: "p \<in> set fs \<Longrightarrow> \<not> to_fix (auto_fix_logs fs w) p"
  by (auto simp: to_fix_def files_auto_fix_logs rewritten_clean split: option.splits)

subsection \<open>The fix patterns\<close>

lemma concat_map_concat:
  "concat (map (\<lambda>q. concat (map g (f q))) xs) = concat (map g (concat (map f xs)))"
  by (induction xs) simp_all

lemma run_Cat_assoc: "run (Cat a (Cat b c)) = run (Cat (Cat a b) c)"
proof (rule ext)
  fix p
  have "run (Cat b c) = (\<lambda>q. concat (map (run c) (run b q)))"
    by (rule ext) simp
  then show "run (Cat a (Cat b c)) p = run (Cat (Cat a b) c) p"
    by (simp add: concat_map_concat)
qed

lemma run_Cat_cong: "run s = run s' \<Longrightarrow> run (Cat r s) = run (Cat r s')"
  by (rule ext) simp

lemma run_Cat_Star_end: "run (Cat r (Star k)) p \<noteq> [] \<longleftrightarrow> run r p \<noteq> []"
proof -
  have "\<And>q. run (Star k) q \<noteq> []"
  proof -
    fix q :: pos
    obtain b a where "q = (b, a)" by (cases q)
    then show "run (Star k) q \<noteq> []" by (simp add: star_nonempty)
  qed
  then show ?thesis unfolding run_Cat_nonempty by (cases "run r p") auto
qed

lemma word_not_space: "is_word x \<Longrightarrow> \<not> is_space x"
  by (auto simp: is_word_def is_space_def Let_def)

lemma starts_letter_not_space:
  assumes "starts_ci (c # w) t" "97 \<le> code c" "code c \<le> 122"
  shows "\<exists>x xs. t = x # xs \<and> \<not> is_space x"
proof -
  from assms(1) obtain x xs where t: "t = x # xs" "to_lower x = to_lower c"
    unfolding starts_ci_Cons by blast
  then have "is_word x" using lower_letter_word assms(2,3) by blast
  then show ?thesis using t(1) word_not_space by blast
qed

lemma fix_form_not_space:
  assumes "fix_form t"
  shows "\<exists>x xs. t = x # xs \<and> \<not> is_space x"
proof -
  from assms consider "starts_ci ''console.log'' t" | "starts_ci ''print'' t"
    | "starts_ci ''System.out.println'' t" | "starts_ci ''echo'' t" | "starts_ci ''log'' t"
    unfolding fix_form_def by blast
  then show ?thesis
  proof cases
    case 1
    then show ?thesis by (rule starts_letter_not_space) (simp_all add: code_def)
  next
    case 2
    then show ?thesis by (rule starts_letter_not_space) (simp_all add: code_def)
  next
    case 3
    then obtain x xs where t: "t = x # xs" "to_lower x = to_lower CHR ''S''"
      unfolding starts_ci_Cons by blast
    have "to_lower CHR ''S'' = to_lower CHR ''s''" by (simp add: to_lower_def code_def)
    then have "is_word x" using t(2) lower_letter_word[of x "CHR ''s''"] by (simp add: code_def)
    then show ?thesis using t(1) word_not_space by blast
  next
    case 4
    then show ?thesis by (rule starts_letter_not_space) (simp_all add: code_def)
  next
    case 5
    then show ?thesis by (rule starts_letter_not_space) (simp_all add: code_def)
  qed
qed

lemma after_spaces:
  assumes "\<And>v. P v \<Longrightarrow> \<exists>x xs. v = x # xs \<and> \<not> is_space x"
  shows "(\<exists>u v. line = u @ v \<and> (\<forall>x\<in>set u. is_space x) \<and> P v) \<longleftrightarrow> P (dropWhile is_space line)"
proof
  assume "\<exists>u v. line = u @ v \<and> (\<forall>x\<in>set u. is_space x) \<and> P v"
  then obtain u v where uv: "line = u @ v" "\<forall>x\<in>set u. is_space x" "P v" by blast
  from assms[OF uv(3)] obtain x xs where v: "v = x # xs" "\<not> is_space x" by blast
  have "dropWhile is_space u = []" using uv(2) by simp
  then have "dropWhile is_space line = v"
    unfolding uv(1) v(1) using v(2) by (simp add: dropWhile_append3)
  then show "P (dropWhile is_space line)" using uv(3) by simp
next
  assume p: "P (dropWhile is_space line)"
  have "line = takeWhile is_space line @ dropWhile is_space line" by simp
  moreover have "\<forall>x\<in>set (takeWhile is_space line). is_space x"
    using set_takeWhileD by fastforce
  ultimately show "\<exists>u v. line = u @ v \<and> (\<forall>x\<in>set u. is_space x) \<and> P v"
    using p by blast
qed

lemma fix_prefix:
  "re_match (Cat Bol (Cat (Star Space) T)) line \<longleftrightarrow>
   (\<exists>u v. line = u @ v \<and> (\<forall>x\<in>set u. is_space x) \<and> run T (rev u, v) \<noteq> [])"
  unfolding re_match_def run_Bol_Cat run_Star_Space_Cat by simp

lemma not_behind_spaces:
  assumes "\<forall>x\<in>set u. is_space x"
  shows "\<not> starts_ci (rev ''logger.'') (rev u)"
proof
  assume "starts_ci (rev ''logger.'') (rev u)"
  then have "starts_ci (CHR ''.'' # ''reggol'') (rev u)" by simp
  then obtain x xs where x: "rev u = x # xs" "to_lower x = to_lower CHR ''.''"
    unfolding starts_ci_Cons by blast
  have "code x = code CHR ''.''"
    using x(2) by (auto simp: to_lower_def code_def split: if_splits)
  then have "x = CHR ''.''" by (simp add: code_inj)
  moreover have "x \<in> set u" using x(1) by (metis list.set_intros(1) set_rev)
  ultimately have "is_space CHR ''.''" using assms by blast
  then show False by (simp add: is_space_def code_def)
qed

lemma fix_tail_text: "run (Cat (Str w) (Star Dot)) (b, t) \<noteq> [] \<longleftrightarrow> starts_ci w t"
  unfolding run_Cat_Star_end run_Str_nonempty ..

lemma fix_tail_call:
  "run (Cat (Str w) (Cat (Star Space) (Cat (Str ''('') (Star Dot)))) (b, t) \<noteq> [] \<longleftrightarrow>
   starts_ci w t \<and> then_paren (drop (length w) t)"
proof -
  have "run (Cat (Str w) (Cat (Star Space) (Cat (Str ''('') (Star Dot)))) =
        run (Cat (Str w) (Cat (Cat (Star Space) (Str ''('')) (Star Dot)))"
    by (rule run_Cat_cong) (rule run_Cat_assoc)
  also have "\<dots> = run (Cat (Cat (Str w) (Cat (Star Space) (Str ''(''))) (Star Dot))"
    by (rule run_Cat_assoc)
  finally show ?thesis
    by (simp only: run_Cat_Star_end run_call)
qed

lemma fix_tail_echo:
  "run (Cat (Str ''echo'') (Cat (Plus Space) (Star Dot))) (b, t) \<noteq> [] \<longleftrightarrow>
   starts_ci ''echo'' t \<and> then_space (drop 4 t)"
proof -
  have n: "length ''echo'' = 4" by simp
  have "run (Cat (Str ''echo'') (Cat (Plus Space) (Star Dot))) =
        run (Cat (Cat (Str ''echo'') (Plus Space)) (Star Dot))"
    by (rule run_Cat_assoc)
  then show ?thesis
    by (simp only: run_Cat_Star_end run_Str_Cat run_Plus_Space n)
qed

lemma fix_pattern_text:
  "re_match (Cat Bol (Cat (Star Space) (Cat (Str w) (Star Dot)))) line \<longleftrightarrow>
   (\<exists>u v. line = u @ v \<and> (\<forall>x\<in>set u. is_space x) \<and> starts_ci w v)"
  unfolding fix_prefix fix_tail_text ..

lemma fix_pattern_call:
  "re_match (Cat Bol (Cat (Star Space)
     (Cat (Str w) (Cat (Star Space) (Cat (Str ''('') (Star Dot)))))) line \<longleftrightarrow>
   (\<exists>u v. line = u @ v \<and> (\<forall>x\<in>set u. is_space x) \<and>
      starts_ci w v \<and> then_paren (drop (length w) v))"
  unfolding fix_prefix fix_tail_call ..

lemma fix_pattern_echo:
  "re_match (Cat Bol (Cat (Star Space) (Cat (Str ''echo'') (Cat (Plus Space) (Star Dot))))) line \<longleftrightarrow>
   (\<exists>u v. line = u @ v \<and> (\<forall>x\<in>set u. is_space x) \<and>
      starts_ci ''echo'' v \<and> then_space (drop 4 v))"
  unfolding fix_prefix fix_tail_echo ..

lemma fix_pattern_log:
  "re_match (Cat Bol (Cat (Star Space) (Cat (Not_Behind ''logger.'')
     (Cat (Str ''log'') (Cat (Star Space) (Cat (Str ''('') (Star Dot))))))) line \<longleftrightarrow>
   (\<exists>u v. line = u @ v \<and> (\<forall>x\<in>set u. is_space x) \<and>
      starts_ci ''log'' v \<and> then_paren (drop 3 v))"
proof -
  have n: "length ''log'' = 3" by simp
  show ?thesis
    unfolding fix_prefix run_Not_Behind_Cat fix_tail_call n
    using not_behind_spaces by blast
qed

lemma ex_disj5':
  "(\<exists>u v. P u v \<and> Q u \<and> A v) \<or> (\<exists>u v. P u v \<and> Q u \<and> B v) \<or>
   (\<exists>u v. P u v \<and> Q u \<and> C v) \<or> (\<exists>u v. P u v \<and> Q u \<and> D v) \<or>
   (\<exists>u v. P u v \<and> Q u \<and> E v) \<longleftrightarrow>
   (\<exists>u v. P u v \<and> Q u \<and> (A v \<or> B v \<or> C v \<or> D v \<or> E v))"
  by blast

lemma any_fix_match_iff: "any_fix_match line \<longleftrightarrow> fix_form (dropWhile is_space line)"
proof -
  have n: "length ''print'' = 5" by simp
  have "any_fix_match line \<longleftrightarrow>
        (\<exists>u v. line = u @ v \<and> (\<forall>x\<in>set u. is_space x) \<and> fix_form v)"
    unfolding any_fix_match_def FIX_PATTERNS_def seq.simps list_ex_Nil_iff list_ex_Cons_iff
      fix_pattern_text fix_pattern_call fix_pattern_echo fix_pattern_log n fix_form_def
    by (simp only: ex_disj5' HOL.simp_thms)
  also have "\<dots> \<longleftrightarrow> fix_form (dropWhile is_space line)"
    using fix_form_not_space by (rule after_spaces)
  finally show ?thesis .
qed

subsection \<open>The entry point\<close>

lemma main_unblocked:
  assumes "get_staged_files query = Inr fs" "fs \<noteq> []" "\<not> list_ex is_protected fs"
  shows "main True query diff w = Inr (auto_fix_logs fs w, 0)"
    and "main False query diff w =
           Inr (if snd (check_for_logs diff fs w)
                then (log_info Remove_Debug_Logs (fst (check_for_logs diff fs w)), 1)
                else (log_info No_Unwanted_Logs (fst (check_for_logs diff fs w)), 0))"
  using assms by (simp_all add: main_def block_if_protected_eq split: prod.splits)

lemma main_blocked:
  assumes "get_staged_files query = Inr fs" "list_ex is_protected fs"
  shows "main fix query diff w =
           Inr (w\<lparr>printed := printed w @ Commit_Blocked #
                   map Protected_File (filter is_protected fs) @ [Protected_Explanation]\<rparr>, 1)"
proof -
  have "fs \<noteq> []" using assms(2) by auto
  then show ?thesis using assms by (simp add: main_def block_if_protected_eq)
qed

lemma auto_fix_logs_fields:
  "\<exists>fixed. distinct fixed \<and> set fixed = {f \<in> set fs. to_fix w f} \<and>
     files (auto_fix_logs fs w) =
       (\<lambda>p. if p \<in> set fixed then Some (rewritten (the (files w p))) else files w p) \<and>
     printed (auto_fix_logs fs w) =
       printed w @ concat (map (removals w) fixed) @
       [if fixed = [] then No_Changes_Needed else Fixed_And_Restaged fixed] \<and>
     effects (auto_fix_logs fs w) =
       effects w @ map (\<lambda>f. Write_Text f (rewritten (the (files w f)))) fixed @
       (if fixed = [] then [] else [Git_Add fixed])"
proof -
  from auto_fix_logs_eq[of fs w] obtain fixed where
    fx: "distinct fixed" "set fixed = {f \<in> set fs. to_fix w f}"
      "auto_fix_logs fs w =
       (if fixed \<noteq> []
        then log_info (Fixed_And_Restaged fixed) (perform (Git_Add fixed) (apply_fixes w fixed))
        else log_info No_Changes_Needed w)" by blast
  have "files (auto_fix_logs fs w) =
       (\<lambda>p. if p \<in> set fixed then Some (rewritten (the (files w p))) else files w p)"
    unfolding fx(3) by (simp add: apply_fixes_def)
  moreover have "printed (auto_fix_logs fs w) =
       printed w @ concat (map (removals w) fixed) @
       [if fixed = [] then No_Changes_Needed else Fixed_And_Restaged fixed]"
    unfolding fx(3) by (simp add: apply_fixes_def)
  moreover have "effects (auto_fix_logs fs w) =
       effects w @ map (\<lambda>f. Write_Text f (rewritten (the (files w f)))) fixed @
       (if fixed = [] then [] else [Git_Add fixed])"
    unfolding fx(3) by (simp add: apply_fixes_def)
  ultimately show ?thesis using fx(1,2) by blast
qed

lemma auto_fix_logs_again:
  "auto_fix_logs fs (auto_fix_logs fs w) = log_info No_Changes_Needed (auto_fix_logs fs w)"
proof -
  have "\<forall>f\<in>set fs. \<not> to_fix (auto_fix_logs fs w) f"
    using to_fix_auto_fix_logs by blast
  then have "fold fix_file fs (auto_fix_logs fs w, []) = (auto_fix_logs fs w, [])"
    by (rule fold_fix_file_clean)
  then show ?thesis by (simp add: auto_fix_logs_def)
qed

lemma to_fix_unprotected:
  "\<not> is_protected f \<Longrightarrow>
   to_fix w f \<longleftrightarrow> (\<exists>text. files w f = Some text \<and> (\<exists>line\<in>set (splitlines text). any_fix_match line))"
  by (auto simp: to_fix_def has_fix_match_def list_ex_iff split: option.splits)

lemma sample_staged:
  "get_staged_files (Completed 0 ''app.js\<newline>empty.py\<newline>debug.py\<newline>'') =
     Inr [''app.js'', ''empty.py'', ''debug.py'']"
  by (simp add: get_staged_files_def strip_def splitlines_def is_linebreak_def is_space_def code_def)

lemma sample_unprotected: "\<not> list_ex is_protected [''app.js'', ''empty.py'', ''debug.py'']"
  by (simp add: is_protected_def PROTECTED_PATHS_def)

lemma sample_protected: "is_protected ''src/config/settings.py''"
  by (simp add: is_protected_def PROTECTED_PATHS_def)

section \<open>The claims\<close>

lemma logger_log_no_form:
  assumes "ends_ci ''logger.'' before" "starts_ci ''log'' t"
  shows "\<not> debug_form before t"
proof -
  from assms(2) obtain x xs where t: "t = x # xs" "to_lower x = to_lower CHR ''l''"
    unfolding starts_ci_Cons by blast
  have l: "to_lower CHR ''l'' = 108" by (simp add: to_lower_def code_def)
  have "\<not> starts_ci ''console.log'' t" "\<not> starts_ci ''print'' t"
    "\<not> starts_ci ''System.out.println'' t" "\<not> starts_ci ''echo'' t"
    unfolding starts_ci_Cons t using t(2) l by (simp_all add: to_lower_def code_def)
  then show ?thesis using assms(1) by (simp add: debug_form_def)
qed

text \<open>
  C3, as the claim states it, fails in both directions. The added line \<open>+echo\<close> holds a
  shell echo statement and the scan does not flag it: the pattern asks for whitespace
  after \<open>echo\<close>. The added line \<open>+x = myconsole.logger\<close> holds no call and no echo
  statement, and the scan flags it: the pattern asks for the text \<open>console.log\<close> only.
\<close>

theorem scan_flags_differ_from_claimed_forms:
  "claimed_flagged ''+echo'' \<and>
   \<not> pattern_search ''+echo'' \<and>
   scan_line ''deploy.sh'' ''+echo'' (empty_world, False) = (empty_world, False) \<and>
   \<not> claimed_flagged ''+x = myconsole.logger'' \<and>
   pattern_search ''+x = myconsole.logger'' \<and>
   scan_line ''app.js'' ''+x = myconsole.logger'' (empty_world, False) =
     (log_info (Log_Detected ''app.js'' ''+x = myconsole.logger'') empty_world, True)"
proof -
  have 1: "claimed_flagged ''+echo''"
    by (simp add: claimed_flagged_def claimed_form_def echo_statement_def call_of_def
        starts_ci_def word_start_def word_after_def to_lower_def is_word_def code_def)
  have 2: "\<not> pattern_search ''+echo''"
    by (simp add: pattern_search_def re_search_def LOG_PATTERNS_def to_lower_def code_def
        is_space_def is_word_def word_before_def word_after_def)
  have 3: "\<not> claimed_flagged ''+x = myconsole.logger''"
    by (simp add: claimed_flagged_def claimed_form_def echo_statement_def call_of_def
        starts_ci_def then_paren_def to_lower_def is_space_def code_def)
  have 4: "pattern_search ''+x = myconsole.logger''"
    by (simp add: pattern_search_def re_search_def LOG_PATTERNS_def to_lower_def code_def)
  show ?thesis using 1 2 3 4 by (simp add: scan_line_def)
qed

text \<open>
  C3, amended. Scan mode flags a line that it takes as added, and reports it with its
  text, exactly when the line starts with the marker \<open>+\<close> and, somewhere after the
  marker and with letter case ignored, there is: the text \<open>console.log\<close>, call or not;
  \<open>print\<close> at the start of a word, optional whitespace and an opening parenthesis;
  the text \<open>System.out.println\<close>, call or not; \<open>echo\<close> at the start of a word and at
  least one whitespace character after it; or \<open>log\<close> at the start of a word, optional
  whitespace and an opening parenthesis, with no \<open>logger.\<close> directly before it. No
  such form starts at a \<open>log\<close> that directly follows \<open>logger.\<close>, and a line that
  holds \<open>logger.log(...)\<close> and nothing else is not flagged.
\<close>

theorem scan_line_flags_debug_forms:
  "scan_line file line (w, h) =
     (if \<exists>u t. line = CHR ''+'' # u @ t \<and> CHR 0x0A \<notin> set u \<and> debug_form (CHR ''+'' # u) t
      then (log_info (Log_Detected file line) w, True) else (w, h)) \<and>
   (ends_ci ''logger.'' before \<and> starts_ci ''log'' rest \<longrightarrow> \<not> debug_form before rest) \<and>
   \<not> pattern_search ''+    logger.log(msg)''"
proof (intro conjI impI)
  show "scan_line file line (w, h) =
     (if \<exists>u t. line = CHR ''+'' # u @ t \<and> CHR 0x0A \<notin> set u \<and> debug_form (CHR ''+'' # u) t
      then (log_info (Log_Detected file line) w, True) else (w, h))"
    by (simp only: scan_line_def pattern_search_iff fst_conv)
next
  assume "ends_ci ''logger.'' before \<and> starts_ci ''log'' rest"
  then show "\<not> debug_form before rest" using logger_log_no_form by blast
next
  show "\<not> pattern_search ''+    logger.log(msg)''"
    by (simp add: pattern_search_def re_search_def LOG_PATTERNS_def to_lower_def code_def
        is_space_def is_word_def word_before_def word_after_def)
qed

theorem scan_line_flags_debug_forms_witness:
  "scan_line ''app.js'' ''+  console.log(1)'' (empty_world, False) =
     (log_info (Log_Detected ''app.js'' ''+  console.log(1)'') empty_world, True) \<and>
   ends_ci ''logger.'' ''+logger.'' \<and> starts_ci ''log'' ''log(msg)'' \<and>
   \<not> debug_form ''+logger.'' ''log(msg)''"
proof -
  have e: "ends_ci ''logger.'' ''+logger.'' \<and> starts_ci ''log'' ''log(msg)''"
    by (simp add: ends_ci_def starts_ci_def to_lower_def code_def)
  have d: "debug_form (CHR ''+'' # ''  '') ''console.log(1)''"
    by (simp add: debug_form_def starts_ci_def to_lower_def code_def)
  have "''+  console.log(1)'' = CHR ''+'' # ''  '' @ ''console.log(1)'' \<and> CHR 0x0A \<notin> set ''  ''"
    by simp
  with d have x: "\<exists>u t. ''+  console.log(1)'' = CHR ''+'' # u @ t \<and> CHR 0x0A \<notin> set u \<and>
      debug_form (CHR ''+'' # u) t" by blast
  show ?thesis
    using scan_line_flags_debug_forms[of "''app.js''" "''+  console.log(1)''" empty_world False
        "''+logger.''" "''log(msg)''"] e x
    by simp
qed

text \<open>
  C6. When the query for the staged files yields no path, the tool prints the
  nothing-to-check message and exits with status 0, in scan mode and in fix mode alike:
  nothing else is printed, no protected-path message among it, no subprocess is run
  and no file is written.
\<close>

theorem no_staged_files_exit_0:
  assumes "get_staged_files query = Inr []"
  shows "main fix query diff w = Inr (log_info No_Staged_Files w, 0) \<and>
         printed (log_info No_Staged_Files w) = printed w @ [No_Staged_Files] \<and>
         effects (log_info No_Staged_Files w) = effects w \<and>
         files (log_info No_Staged_Files w) = files w"
  using assms by (simp add: main_def log_info_def)

theorem no_staged_files_exit_0_witness:
  "get_staged_files (Completed 0 []) = Inr [] \<and>
   main True (Completed 0 []) no_diff empty_world = Inr (log_info No_Staged_Files empty_world, 0) \<and>
   main False (Completed 0 []) no_diff empty_world = Inr (log_info No_Staged_Files empty_world, 0)"
proof -
  have g: "get_staged_files (Completed 0 []) = Inr []"
    by (simp add: get_staged_files_def strip_def splitlines_def)
  show ?thesis
    using g no_staged_files_exit_0[OF g, of True no_diff empty_world]
      no_staged_files_exit_0[OF g, of False no_diff empty_world]
    by simp
qed

text \<open>
  Scan mode on the lines that \<open>added_lines\<close> extracts, with staged files of which none
  is protected: the scan returns true exactly when one of these lines, for a staged
  file that exists, matches the combined scan pattern; it reports every such line, file
  after file; the run then prints the rejection message and exits with status 1, or
  prints the confirmation message and ends with status 0.
\<close>

lemma scan_mode_on_extracted_lines:
  assumes "get_staged_files query = Inr fs" "fs \<noteq> []" "\<not> list_ex is_protected fs"
  shows "(snd (check_for_logs diff fs w) \<longleftrightarrow>
           (\<exists>f\<in>set fs. \<not> is_protected f \<and> files w f \<noteq> None \<and>
              (\<exists>line\<in>set (added_lines (diff f)). pattern_search line))) \<and>
         printed (fst (check_for_logs diff fs w)) =
           printed w @
           concat (map (\<lambda>f. map (Log_Detected f) (filter pattern_search (added_lines (diff f))))
                     (filter (\<lambda>f. files w f \<noteq> None) fs)) \<and>
         main False query diff w =
           Inr (if snd (check_for_logs diff fs w)
                then (log_info Remove_Debug_Logs (fst (check_for_logs diff fs w)), 1)
                else (log_info No_Unwanted_Logs (fst (check_for_logs diff fs w)), 0))"
proof (intro conjI)
  have d: "\<And>f. detections diff f \<noteq> [] \<longleftrightarrow> (\<exists>line\<in>set (added_lines (diff f)). pattern_search line)"
    by (auto simp: detections_def filter_empty_conv)
  show "snd (check_for_logs diff fs w) \<longleftrightarrow>
           (\<exists>f\<in>set fs. \<not> is_protected f \<and> files w f \<noteq> None \<and>
              (\<exists>line\<in>set (added_lines (diff f)). pattern_search line))"
    unfolding check_for_logs_eq snd_conv d scanned_def by blast
next
  have "\<forall>f\<in>set fs. \<not> is_protected f" using assms(3) by (simp add: list_ex_iff)
  then have "filter (scanned w) fs = filter (\<lambda>f. files w f \<noteq> None) fs"
    by (intro filter_cong) (simp_all add: scanned_def)
  then show "printed (fst (check_for_logs diff fs w)) =
           printed w @
           concat (map (\<lambda>f. map (Log_Detected f) (filter pattern_search (added_lines (diff f))))
                     (filter (\<lambda>f. files w f \<noteq> None) fs))"
    by (simp add: check_for_logs_eq detections_def)
next
  show "main False query diff w =
           Inr (if snd (check_for_logs diff fs w)
                then (log_info Remove_Debug_Logs (fst (check_for_logs diff fs w)), 1)
                else (log_info No_Unwanted_Logs (fst (check_for_logs diff fs w)), 0))"
    using assms by (rule main_unblocked(2))
qed

subsection \<open>The diff that adds a line starting with two plus signs\<close>

lemma increment_lines:
  "splitlines (increment_diff ''app.js'') =
     [''diff --git a/app.js b/app.js'', ''index 1111111..2222222 100644'', ''--- a/app.js'',
      ''+++ b/app.js'', ''@@ -1 +1,3 @@'', '' let i = 0;'', ''+++i; console.log(i);'',
      ''+i += 1;'']"
  by (simp add: increment_diff_def splitlines_def is_linebreak_def code_def)

lemma increment_line_matches: "pattern_search ''+++i; console.log(i);''"
  by (simp add: pattern_search_def re_search_def LOG_PATTERNS_def to_lower_def code_def)

lemma increment_added: "added_lines (increment_diff ''app.js'') = [''+i += 1;'']"
  unfolding added_lines_def increment_lines by simp

lemma app_staged: "get_staged_files (Completed 0 ''app.js\<newline>'') = Inr [''app.js'']"
  by (simp add: get_staged_files_def strip_def splitlines_def is_linebreak_def is_space_def code_def)

lemma app_unprotected: "\<not> list_ex is_protected [''app.js'']"
  by (simp add: is_protected_def PROTECTED_PATHS_def)

lemma increment_check:
  "check_for_logs increment_diff [''app.js''] sample_world =
     (perform (Git_Diff_Cached ''app.js'') sample_world, False)"
proof -
  have q: "\<not> pattern_search ''+i += 1;''"
    by (simp add: pattern_search_def re_search_def LOG_PATTERNS_def to_lower_def code_def
        is_space_def is_word_def word_before_def word_after_def)
  have s: "scanned sample_world ''app.js''"
    using app_unprotected by (simp add: scanned_def sample_world_def sample_tree_def)
  have d: "detections increment_diff ''app.js'' = []"
    unfolding detections_def increment_added using q by simp
  show ?thesis
    unfolding check_for_logs_eq using s d by (simp add: perform_def)
qed

lemma increment_main:
  "main False (Completed 0 ''app.js\<newline>'') increment_diff sample_world =
     Inr (log_info No_Unwanted_Logs (perform (Git_Diff_Cached ''app.js'') sample_world), 0)"
  using main_unblocked(2)[OF app_staged _ app_unprotected, of increment_diff sample_world]
    increment_check by simp

text \<open>
  C1, on the code: \<open>app.js\<close> is staged, exists and is not protected, and its staged
  diff adds the line \<open>++i; console.log(i);\<close>, shown as \<open>+++i; console.log(i);\<close> in
  the hunk after the \<open>@@\<close> line. This added line matches the combined scan pattern,
  yet the scan returns false, reports no line, prints the confirmation message and the
  run ends with status 0. The scan never sees the line: it takes no line that starts
  with \<open>+++\<close> as added, the defect of C8.
\<close>

theorem scan_passes_added_debug_line:
  "get_staged_files (Completed 0 ''app.js\<newline>'') = Inr [''app.js''] \<and>
   \<not> list_ex is_protected [''app.js''] \<and>
   files sample_world ''app.js'' \<noteq> None \<and>
   splitlines (increment_diff ''app.js'') =
     [''diff --git a/app.js b/app.js'', ''index 1111111..2222222 100644'', ''--- a/app.js'',
      ''+++ b/app.js'', ''@@ -1 +1,3 @@'', '' let i = 0;'', ''+++i; console.log(i);'',
      ''+i += 1;''] \<and>
   pattern_search ''+++i; console.log(i);'' \<and>
   check_for_logs increment_diff [''app.js''] sample_world =
     (perform (Git_Diff_Cached ''app.js'') sample_world, False) \<and>
   printed (perform (Git_Diff_Cached ''app.js'') sample_world) = [] \<and>
   main False (Completed 0 ''app.js\<newline>'') increment_diff sample_world =
     Inr (log_info No_Unwanted_Logs (perform (Git_Diff_Cached ''app.js'') sample_world), 0)"
proof -
  have f: "files sample_world ''app.js'' \<noteq> None"
    by (simp add: sample_world_def sample_tree_def)
  have p: "printed (perform (Git_Diff_Cached ''app.js'') sample_world) = []"
    by (simp add: sample_world_def)
  show ?thesis
    using app_staged app_unprotected f increment_lines increment_line_matches increment_check p
      increment_main
    by (intro conjI)
qed

text \<open>
  C2. When a staged path starts with a protected prefix, the run, in scan mode and in
  fix mode alike, prints the blocking message, each protected staged path and the
  explanation, and exits with status 1; it runs no diff, writes no file and re-adds
  nothing.
\<close>

theorem protected_paths_block:
  assumes "get_staged_files query = Inr fs" "list_ex is_protected fs"
  shows "\<exists>w'. main fix query diff w = Inr (w', 1) \<and>
           printed w' = printed w @ Commit_Blocked # map Protected_File (filter is_protected fs) @
                          [Protected_Explanation] \<and>
           effects w' = effects w \<and> files w' = files w"
proof -
  let ?w = "w\<lparr>printed := printed w @ Commit_Blocked #
                   map Protected_File (filter is_protected fs) @ [Protected_Explanation]\<rparr>"
  have "main fix query diff w = Inr (?w, 1)" using assms by (rule main_blocked)
  moreover have "printed ?w = printed w @ Commit_Blocked # map Protected_File (filter is_protected fs) @
                          [Protected_Explanation]" "effects ?w = effects w" "files ?w = files w"
    by simp_all
  ultimately show ?thesis by blast
qed

theorem protected_paths_block_witness:
  "get_staged_files (Completed 0 ''app.js\<newline>src/config/settings.py\<newline>'') =
     Inr [''app.js'', ''src/config/settings.py''] \<and>
   list_ex is_protected [''app.js'', ''src/config/settings.py''] \<and>
   (\<exists>w'. main True (Completed 0 ''app.js\<newline>src/config/settings.py\<newline>'') sample_diff sample_world =
           Inr (w', 1) \<and>
         printed w' = [Commit_Blocked, Protected_File ''src/config/settings.py'', Protected_Explanation] \<and>
         effects w' = [] \<and> files w' = sample_tree)"
proof -
  have g: "get_staged_files (Completed 0 ''app.js\<newline>src/config/settings.py\<newline>'') =
     Inr [''app.js'', ''src/config/settings.py'']"
    by (simp add: get_staged_files_def strip_def splitlines_def is_linebreak_def is_space_def code_def)
  have p: "list_ex is_protected [''app.js'', ''src/config/settings.py'']"
    by (simp add: is_protected_def PROTECTED_PATHS_def)
  have f: "\<not> is_protected ''app.js''" "is_protected ''src/config/settings.py''"
    by (simp_all add: is_protected_def PROTECTED_PATHS_def)
  show ?thesis
    using protected_paths_block[OF g p, of True sample_diff sample_world] g p
    by (simp add: f sample_world_def)
qed

text \<open>
  C7, as the claim states it, fails: a query that git ends with status 128 and no
  output has failed, and the tool reports that there is nothing to check and exits
  with status 0.
\<close>

theorem failed_query_reads_as_no_staged_files:
  "query_failed (Completed 128 []) \<and>
   main False (Completed 128 []) no_diff empty_world = Inr (log_info No_Staged_Files empty_world, 0)"
  by (simp add: query_failed_def main_def get_staged_files_def strip_def splitlines_def)

text \<open>
  C7, amended. When git cannot be started for the query, the failure ends the run as an
  error. When git runs, its exit status is not looked at: the run is the run of a
  successful query with the same output, so that a failed query whose output is empty
  or blank is reported as nothing to check, with exit status 0.
\<close>

theorem query_status_is_ignored:
  "main fix Not_Started diff w = Inl OSError \<and>
   main fix (Completed returncode stdout) diff w = main fix (Completed 0 stdout) diff w \<and>
   (strip stdout = [] \<longrightarrow>
      main fix (Completed returncode stdout) diff w = Inr (log_info No_Staged_Files w, 0))"
  by (simp add: main_def get_staged_files_def splitlines_def)

theorem query_status_is_ignored_witness:
  "main True Not_Started no_diff empty_world = Inl OSError \<and>
   main True (Completed 128 '' \<newline>'') no_diff empty_world =
     main True (Completed 0 '' \<newline>'') no_diff empty_world \<and>
   strip '' \<newline>'' = [] \<and>
   main True (Completed 128 '' \<newline>'') no_diff empty_world =
     Inr (log_info No_Staged_Files empty_world, 0)"
proof -
  have s: "strip '' \<newline>'' = []" by (simp add: strip_def is_space_def code_def)
  note t = query_status_is_ignored[of True no_diff empty_world 128 "'' \<newline>''"]
  from t have a: "main True Not_Started no_diff empty_world = Inl OSError" by blast
  from t have b: "main True (Completed 128 '' \<newline>'') no_diff empty_world =
     main True (Completed 0 '' \<newline>'') no_diff empty_world" by blast
  from t s have c: "main True (Completed 128 '' \<newline>'') no_diff empty_world =
     Inr (log_info No_Staged_Files empty_world, 0)" by blast
  show ?thesis using a b s c by (intro conjI)
qed

text \<open>
  C8, on the code: the staged diff of \<open>app.js\<close> adds the line \<open>++i; console.log(i);\<close>,
  which the diff shows as \<open>+++i; console.log(i);\<close>. The line is not the file header of
  the diff and it matches the scan pattern, yet the scan leaves it out of the added
  lines, reports nothing and lets the commit pass.
\<close>

theorem added_line_starting_with_plus_plus_is_dropped:
  "''+++i; console.log(i);'' \<in> set (splitlines (increment_diff ''app.js'')) \<and>
   pattern_search ''+++i; console.log(i);'' \<and>
   added_lines (increment_diff ''app.js'') = [''+i += 1;''] \<and>
   main False (Completed 0 ''app.js\<newline>'') increment_diff sample_world =
     Inr (log_info No_Unwanted_Logs (perform (Git_Diff_Cached ''app.js'') sample_world), 0)"
proof -
  have "''+++i; console.log(i);'' \<in> set (splitlines (increment_diff ''app.js''))"
    unfolding increment_lines by simp
  then show ?thesis
    using increment_line_matches increment_added increment_main by (intro conjI)
qed

text \<open>
  C9. A file under a protected prefix is skipped by the scan and by the fix pass,
  whatever it holds and whatever else is staged: the scan prints no detection for it
  and runs no diff on it; the fix pass leaves its content as it was, writes nothing to
  it, reports no line removed from it and does not re-add it.
\<close>

theorem protected_files_are_skipped:
  assumes "is_protected f"
  shows "(Log_Detected f line \<in> set (printed (fst (check_for_logs diff fs w))) \<longrightarrow>
            Log_Detected f line \<in> set (printed w)) \<and>
         (Git_Diff_Cached f \<in> set (effects (fst (check_for_logs diff fs w))) \<longrightarrow>
            Git_Diff_Cached f \<in> set (effects w)) \<and>
         files (auto_fix_logs fs w) f = files w f \<and>
         (Write_Text f text \<in> set (effects (auto_fix_logs fs w)) \<longrightarrow>
            Write_Text f text \<in> set (effects w)) \<and>
         (Removed line f \<in> set (printed (auto_fix_logs fs w)) \<longrightarrow>
            Removed line f \<in> set (printed w)) \<and>
         (Git_Add gs \<in> set (effects (auto_fix_logs fs w)) \<longrightarrow>
            Git_Add gs \<in> set (effects w) \<or> f \<notin> set gs)"
proof -
  have ns: "\<not> scanned w f" using assms by (simp add: scanned_def)
  have nf: "\<not> to_fix w f" using assms by (simp add: to_fix_def)
  from auto_fix_logs_fields[of fs w] obtain fixed where
    fx: "set fixed = {g \<in> set fs. to_fix w g}"
      "printed (auto_fix_logs fs w) =
         printed w @ concat (map (removals w) fixed) @
         [if fixed = [] then No_Changes_Needed else Fixed_And_Restaged fixed]"
      "effects (auto_fix_logs fs w) =
         effects w @ map (\<lambda>g. Write_Text g (rewritten (the (files w g)))) fixed @
         (if fixed = [] then [] else [Git_Add fixed])"
    by blast
  have nfx: "f \<notin> set fixed" using fx(1) nf by simp
  have 1: "Log_Detected f line \<in> set (printed (fst (check_for_logs diff fs w))) \<longrightarrow>
            Log_Detected f line \<in> set (printed w)"
    using ns by (auto simp: check_for_logs_eq)
  have 2: "Git_Diff_Cached f \<in> set (effects (fst (check_for_logs diff fs w))) \<longrightarrow>
            Git_Diff_Cached f \<in> set (effects w)"
    using ns by (auto simp: check_for_logs_eq)
  have 3: "files (auto_fix_logs fs w) f = files w f"
    using nf by (simp add: files_auto_fix_logs)
  have 4: "Write_Text f text \<in> set (effects (auto_fix_logs fs w)) \<longrightarrow>
            Write_Text f text \<in> set (effects w)"
    unfolding fx(3) using nfx by (auto split: if_splits)
  have 5: "Removed line f \<in> set (printed (auto_fix_logs fs w)) \<longrightarrow>
            Removed line f \<in> set (printed w)"
    unfolding fx(2) using nfx by (auto simp: removals_def split: if_splits)
  have 6: "Git_Add gs \<in> set (effects (auto_fix_logs fs w)) \<longrightarrow>
            Git_Add gs \<in> set (effects w) \<or> f \<notin> set gs"
    unfolding fx(3) using nfx by (auto split: if_splits)
  show ?thesis using 1 2 3 4 5 6 by (intro conjI)
qed

theorem protected_files_are_skipped_witness:
  "is_protected ''src/config/settings.py'' \<and>
   files sample_world ''src/config/settings.py'' = Some ''print(secret)\<newline>'' \<and>
   any_fix_match ''print(secret)'' \<and>
   files (auto_fix_logs [''src/config/settings.py'', ''debug.py''] sample_world)
     ''src/config/settings.py'' = Some ''print(secret)\<newline>'' \<and>
   Write_Text ''src/config/settings.py'' ''\<newline>''
     \<notin> set (effects (auto_fix_logs [''src/config/settings.py'', ''debug.py''] sample_world)) \<and>
   Removed ''print(secret)'' ''src/config/settings.py''
     \<notin> set (printed (auto_fix_logs [''src/config/settings.py'', ''debug.py''] sample_world)) \<and>
   Git_Diff_Cached ''src/config/settings.py''
     \<notin> set (effects (fst (check_for_logs sample_diff [''src/config/settings.py'', ''debug.py'']
                             sample_world)))"
proof -
  have f: "files sample_world ''src/config/settings.py'' = Some ''print(secret)\<newline>''"
    by (simp add: sample_world_def sample_tree_def)
  have m: "any_fix_match ''print(secret)''"
    by (simp add: any_fix_match_def FIX_PATTERNS_def re_match_def to_lower_def code_def is_space_def)
  have e: "effects sample_world = []" "printed sample_world = []"
    by (simp_all add: sample_world_def)
  note t = protected_files_are_skipped[OF sample_protected,
      of _ sample_diff "[''src/config/settings.py'', ''debug.py'']" sample_world]
  have 1: "files (auto_fix_logs [''src/config/settings.py'', ''debug.py''] sample_world)
     ''src/config/settings.py'' = Some ''print(secret)\<newline>''"
    using t[of "[]" "[]" "[]"] f by simp
  have 2: "Write_Text ''src/config/settings.py'' ''\<newline>''
     \<notin> set (effects (auto_fix_logs [''src/config/settings.py'', ''debug.py''] sample_world))"
    using t[of "[]" "''\<newline>''" "[]"] e by auto
  have 3: "Removed ''print(secret)'' ''src/config/settings.py''
     \<notin> set (printed (auto_fix_logs [''src/config/settings.py'', ''debug.py''] sample_world))"
    using t[of "''print(secret)''" "[]" "[]"] e by auto
  have 4: "Git_Diff_Cached ''src/config/settings.py''
     \<notin> set (effects (fst (check_for_logs sample_diff [''src/config/settings.py'', ''debug.py'']
                             sample_world)))"
    using t[of "[]" "[]" "[]"] e by auto
  show ?thesis using sample_protected f m 1 2 3 4 by (intro conjI)
qed

text \<open>
  C4. In fix mode, with staged files of which none is protected, the run ends with
  status 0 whether or not it changed anything. The files it rewrites are the staged
  files that exist and hold a line that matches a fix pattern, each once; such a file
  then holds the lines that match no fix pattern, in their order, joined by newlines
  and closed by one newline; every other path is as it was. Each rewritten file is
  written once and all of them are re-added with one \<open>git add\<close>, which is not run when
  there is none. A line matches a fix pattern exactly when, after its leading
  whitespace, it starts with a debug form, letter case ignored.
\<close>

theorem fix_mode_rewrites_and_exits_0:
  assumes "get_staged_files query = Inr fs" "fs \<noteq> []" "\<not> list_ex is_protected fs"
  shows "\<exists>w' fixed.
           main True query diff w = Inr (w', 0) \<and>
           distinct fixed \<and>
           set fixed = {f \<in> set fs. \<exists>text. files w f = Some text \<and>
                          (\<exists>line\<in>set (splitlines text). any_fix_match line)} \<and>
           (\<forall>f. files w' f =
              (if f \<in> set fixed
               then Some (join_lines (filter (\<lambda>line. \<not> any_fix_match line)
                                        (splitlines (the (files w f)))) @ [CHR 0x0A])
               else files w f)) \<and>
           effects w' =
             effects w @
             map (\<lambda>f. Write_Text f (join_lines (filter (\<lambda>line. \<not> any_fix_match line)
                                        (splitlines (the (files w f)))) @ [CHR 0x0A])) fixed @
             (if fixed = [] then [] else [Git_Add fixed]) \<and>
           (\<forall>line. any_fix_match line \<longleftrightarrow> fix_form (dropWhile is_space line))"
proof -
  from auto_fix_logs_fields[of fs w] obtain fixed where
    fx: "distinct fixed" "set fixed = {f \<in> set fs. to_fix w f}"
      "files (auto_fix_logs fs w) =
         (\<lambda>p. if p \<in> set fixed then Some (rewritten (the (files w p))) else files w p)"
      "effects (auto_fix_logs fs w) =
         effects w @ map (\<lambda>f. Write_Text f (rewritten (the (files w f)))) fixed @
         (if fixed = [] then [] else [Git_Add fixed])"
    by blast
  have r: "\<And>t. rewritten t =
             join_lines (filter (\<lambda>line. \<not> any_fix_match line) (splitlines t)) @ [CHR 0x0A]"
    by (simp add: rewritten_def kept_lines_def)
  have np: "\<forall>f\<in>set fs. \<not> is_protected f" using assms(3) by (simp add: list_ex_iff)
  have m: "main True query diff w = Inr (auto_fix_logs fs w, 0)"
    using assms by (rule main_unblocked(1))
  have s: "set fixed = {f \<in> set fs. \<exists>text. files w f = Some text \<and>
                          (\<exists>line\<in>set (splitlines text). any_fix_match line)}"
    unfolding fx(2) using np to_fix_unprotected by blast
  have fl: "\<forall>f. files (auto_fix_logs fs w) f =
              (if f \<in> set fixed
               then Some (join_lines (filter (\<lambda>line. \<not> any_fix_match line)
                                        (splitlines (the (files w f)))) @ [CHR 0x0A])
               else files w f)"
    unfolding fx(3) r by simp
  have ef: "effects (auto_fix_logs fs w) =
             effects w @
             map (\<lambda>f. Write_Text f (join_lines (filter (\<lambda>line. \<not> any_fix_match line)
                                        (splitlines (the (files w f)))) @ [CHR 0x0A])) fixed @
             (if fixed = [] then [] else [Git_Add fixed])"
    unfolding fx(4) r ..
  have pt: "\<forall>line. any_fix_match line \<longleftrightarrow> fix_form (dropWhile is_space line)"
    using any_fix_match_iff by blast
  show ?thesis using m fx(1) s fl ef pt by blast
qed

theorem fix_mode_rewrites_and_exits_0_witness:
  "get_staged_files (Completed 0 ''app.js\<newline>empty.py\<newline>debug.py\<newline>'') =
     Inr [''app.js'', ''empty.py'', ''debug.py''] \<and>
   [''app.js'', ''empty.py'', ''debug.py''] \<noteq> [] \<and>
   \<not> list_ex is_protected [''app.js'', ''empty.py'', ''debug.py''] \<and>
   (\<exists>w'. main True (Completed 0 ''app.js\<newline>empty.py\<newline>debug.py\<newline>'') sample_diff sample_world =
           Inr (w', 0) \<and>
         files w' ''app.js'' = Some ''let a = 1;\<newline>a += 1;\<newline>'' \<and>
         files w' ''empty.py'' = Some [] \<and>
         files w' ''debug.py'' = Some ''\<newline>'')"
proof -
  have n: "[''app.js'', ''empty.py'', ''debug.py''] \<noteq> []" by simp
  from fix_mode_rewrites_and_exits_0[OF sample_staged n sample_unprotected, of sample_diff sample_world]
  obtain w' fixed where
    w: "main True (Completed 0 ''app.js\<newline>empty.py\<newline>debug.py\<newline>'') sample_diff sample_world =
          Inr (w', 0)"
    and s: "set fixed = {f \<in> set [''app.js'', ''empty.py'', ''debug.py''].
              \<exists>text. files sample_world f = Some text \<and>
                (\<exists>line\<in>set (splitlines text). any_fix_match line)}"
    and f: "\<forall>f. files w' f =
              (if f \<in> set fixed
               then Some (join_lines (filter (\<lambda>line. \<not> any_fix_match line)
                                        (splitlines (the (files sample_world f)))) @ [CHR 0x0A])
               else files sample_world f)"
    by blast
  have fa: "files sample_world ''app.js'' = Some ''let a = 1;\<newline>  console.log(a);\<newline>a += 1;\<newline>''"
    "files sample_world ''empty.py'' = Some []"
    "files sample_world ''debug.py'' = Some ''print(x)\<newline>''"
    by (simp_all add: sample_world_def sample_tree_def)
  have la: "splitlines ''let a = 1;\<newline>  console.log(a);\<newline>a += 1;\<newline>'' =
              [''let a = 1;'', ''  console.log(a);'', ''a += 1;'']"
    "splitlines ''print(x)\<newline>'' = [''print(x)'']" "splitlines [] = []"
    by (simp_all add: splitlines_def is_linebreak_def code_def)
  have ma: "\<not> any_fix_match ''let a = 1;''" "any_fix_match ''  console.log(a);''"
    "\<not> any_fix_match ''a += 1;''" "any_fix_match ''print(x)''"
    by (simp_all add: any_fix_match_def FIX_PATTERNS_def re_match_def to_lower_def code_def
        is_space_def)
  have sf: "set fixed = {''app.js'', ''debug.py''}"
    unfolding s using fa la ma by auto
  have "files w' ''app.js'' = Some ''let a = 1;\<newline>a += 1;\<newline>''"
    "files w' ''empty.py'' = Some []" "files w' ''debug.py'' = Some ''\<newline>''"
    using f sf fa la ma by simp_all
  then show ?thesis using w sample_staged sample_unprotected by simp
qed

text \<open>
  C5. Fix mode is idempotent. After one fix pass over the staged files, no line of a
  staged file that is not protected matches a fix pattern; a second pass over the same
  files then changes nothing: it drops no line, writes no file, re-adds nothing, and
  prints only that no changes were needed. The same holds for a second run of the tool
  in fix mode.
\<close>

theorem fix_mode_is_idempotent:
  "(\<forall>f\<in>set fs. \<not> is_protected f \<longrightarrow>
      (\<forall>text. files (auto_fix_logs fs w) f = Some text \<longrightarrow>
         (\<forall>line\<in>set (splitlines text). \<not> any_fix_match line))) \<and>
   auto_fix_logs fs (auto_fix_logs fs w) = log_info No_Changes_Needed (auto_fix_logs fs w) \<and>
   (get_staged_files query = Inr fs \<and> fs \<noteq> [] \<and> \<not> list_ex is_protected fs \<longrightarrow>
      main True query diff w = Inr (auto_fix_logs fs w, 0) \<and>
      main True query diff (auto_fix_logs fs w) =
        Inr (log_info No_Changes_Needed (auto_fix_logs fs w), 0))"
proof (intro conjI ballI impI allI)
  fix f content l
  assume f: "f \<in> set fs" "\<not> is_protected f" "files (auto_fix_logs fs w) f = Some content"
    and l: "l \<in> set (splitlines content)"
  have "\<not> to_fix (auto_fix_logs fs w) f" using f(1) by (rule to_fix_auto_fix_logs)
  then show "\<not> any_fix_match l"
    using f(2,3) l to_fix_unprotected[of f "auto_fix_logs fs w"] by blast
next
  show "auto_fix_logs fs (auto_fix_logs fs w) = log_info No_Changes_Needed (auto_fix_logs fs w)"
    by (rule auto_fix_logs_again)
next
  assume a: "get_staged_files query = Inr fs \<and> fs \<noteq> [] \<and> \<not> list_ex is_protected fs"
  then show "main True query diff w = Inr (auto_fix_logs fs w, 0)"
    using main_unblocked(1) by blast
next
  assume a: "get_staged_files query = Inr fs \<and> fs \<noteq> [] \<and> \<not> list_ex is_protected fs"
  then have "main True query diff (auto_fix_logs fs w) =
               Inr (auto_fix_logs fs (auto_fix_logs fs w), 0)"
    using main_unblocked(1) by blast
  then show "main True query diff (auto_fix_logs fs w) =
        Inr (log_info No_Changes_Needed (auto_fix_logs fs w), 0)"
    by (simp only: auto_fix_logs_again)
qed

theorem fix_mode_is_idempotent_witness:
  "''debug.py'' \<in> set [''app.js'', ''empty.py'', ''debug.py''] \<and>
   \<not> is_protected ''debug.py'' \<and>
   files (auto_fix_logs [''app.js'', ''empty.py'', ''debug.py''] sample_world) ''debug.py'' =
     Some ''\<newline>'' \<and>
   [] \<in> set (splitlines ''\<newline>'') \<and> \<not> any_fix_match [] \<and>
   get_staged_files (Completed 0 ''app.js\<newline>empty.py\<newline>debug.py\<newline>'') =
     Inr [''app.js'', ''empty.py'', ''debug.py''] \<and>
   [''app.js'', ''empty.py'', ''debug.py''] \<noteq> [] \<and>
   \<not> list_ex is_protected [''app.js'', ''empty.py'', ''debug.py''] \<and>
   main True (Completed 0 ''app.js\<newline>empty.py\<newline>debug.py\<newline>'') sample_diff
     (auto_fix_logs [''app.js'', ''empty.py'', ''debug.py''] sample_world) =
     Inr (log_info No_Changes_Needed
            (auto_fix_logs [''app.js'', ''empty.py'', ''debug.py''] sample_world), 0)"
proof -
  let ?fs = "[''app.js'', ''empty.py'', ''debug.py'']"
  note t = fix_mode_is_idempotent[of ?fs sample_world
      "Completed 0 ''app.js\<newline>empty.py\<newline>debug.py\<newline>''" sample_diff]
  have u: "\<not> is_protected ''debug.py''"
    using sample_unprotected by simp
  have d: "to_fix sample_world ''debug.py''"
    using u
    by (simp add: to_fix_def sample_world_def sample_tree_def has_fix_match_def splitlines_def
        is_linebreak_def any_fix_match_def FIX_PATTERNS_def re_match_def to_lower_def code_def
        is_space_def)
  have k: "kept_lines ''print(x)\<newline>'' = []"
    by (simp add: kept_lines_def splitlines_def is_linebreak_def any_fix_match_def
        FIX_PATTERNS_def re_match_def to_lower_def code_def is_space_def)
  have f: "files (auto_fix_logs ?fs sample_world) ''debug.py'' = Some ''\<newline>''"
    using d k by (simp add: files_auto_fix_logs rewritten_def sample_world_def sample_tree_def)
  have s: "[] \<in> set (splitlines ''\<newline>'')"
    by (simp add: splitlines_def is_linebreak_def code_def)
  have m: "\<not> any_fix_match []"
    using t u f s by auto
  have n: "?fs \<noteq> []" by simp
  have r: "main True (Completed 0 ''app.js\<newline>empty.py\<newline>debug.py\<newline>'') sample_diff
     (auto_fix_logs ?fs sample_world) =
     Inr (log_info No_Changes_Needed (auto_fix_logs ?fs sample_world), 0)"
    using t sample_staged n sample_unprotected by blast
  show ?thesis using u f s m sample_staged sample_unprotected r by simp
qed

text \<open>
  C10, as the claim states it, fails on a file with no line at all: every line of an
  empty file matches a fix pattern, the file is staged, exists and is not protected,
  and fix mode writes nothing and leaves it empty.
\<close>

theorem empty_file_stays_empty:
  "files empty_file_world ''empty.py'' = Some [] \<and>
   \<not> is_protected ''empty.py'' \<and>
   list_all any_fix_match (splitlines []) \<and>
   main True (Completed 0 ''empty.py'') no_diff empty_file_world =
     Inr (log_info No_Changes_Needed empty_file_world, 0) \<and>
   files (log_info No_Changes_Needed empty_file_world) ''empty.py'' = Some [] \<and>
   effects (log_info No_Changes_Needed empty_file_world) = []"
proof -
  have g: "get_staged_files (Completed 0 ''empty.py'') = Inr [''empty.py'']"
    by (simp add: get_staged_files_def strip_def splitlines_def is_linebreak_def is_space_def
        code_def)
  have u: "\<not> is_protected ''empty.py''"
    by (simp add: is_protected_def PROTECTED_PATHS_def)
  have f: "files empty_file_world ''empty.py'' = Some []"
    by (simp add: empty_file_world_def)
  have s: "splitlines [] = []" by (simp add: splitlines_def)
  have "\<not> to_fix empty_file_world ''empty.py''"
    by (simp add: to_fix_def f has_fix_match_def s)
  then have "fold fix_file [''empty.py''] (empty_file_world, []) = (empty_file_world, [])"
    by (simp add: fix_file_eq)
  then have a: "auto_fix_logs [''empty.py''] empty_file_world =
                log_info No_Changes_Needed empty_file_world"
    by (simp add: auto_fix_logs_def)
  have "main True (Completed 0 ''empty.py'') no_diff empty_file_world =
     Inr (log_info No_Changes_Needed empty_file_world, 0)"
    using main_unblocked(1)[OF g, of no_diff empty_file_world] u a by simp
  then show ?thesis using f u s by (simp add: empty_file_world_def)
qed

text \<open>
  C10, amended. In fix mode, with staged files of which none is protected, a staged
  file that exists, has at least one line, and has only lines that match a fix pattern
  is written once with one newline character as its content, and holds that newline
  when the run ends with status 0: it is neither deleted nor left empty.
\<close>

theorem all_debug_file_becomes_one_newline:
  assumes "get_staged_files query = Inr fs" "\<not> list_ex is_protected fs" "f \<in> set fs"
    and "files w f = Some text" "splitlines text \<noteq> []"
    and "\<forall>line\<in>set (splitlines text). any_fix_match line"
  shows "\<exists>w'. main True query diff w = Inr (w', 0) \<and>
           files w' f = Some [CHR 0x0A] \<and>
           Write_Text f [CHR 0x0A] \<in> set (effects w') \<and>
           (\<forall>t. Write_Text f t \<in> set (effects w') \<longrightarrow> Write_Text f t \<in> set (effects w) \<or> t = [CHR 0x0A])"
proof -
  have ne: "fs \<noteq> []" using assms(3) by auto
  have np: "\<not> is_protected f" using assms(2,3) by (auto simp: list_ex_iff)
  have k: "kept_lines text = []"
    using assms(6) by (simp add: kept_lines_def filter_empty_conv)
  then have r: "rewritten text = [CHR 0x0A]" by (simp add: rewritten_def)
  obtain l where "l \<in> set (splitlines text)" using assms(5) by (cases "splitlines text") auto
  then have tf: "to_fix w f"
    using assms(4,6) np by (auto simp: to_fix_def has_fix_match_def list_ex_iff)
  from auto_fix_logs_fields[of fs w] obtain fixed where
    fx: "set fixed = {g \<in> set fs. to_fix w g}"
      "files (auto_fix_logs fs w) =
         (\<lambda>p. if p \<in> set fixed then Some (rewritten (the (files w p))) else files w p)"
      "effects (auto_fix_logs fs w) =
         effects w @ map (\<lambda>g. Write_Text g (rewritten (the (files w g)))) fixed @
         (if fixed = [] then [] else [Git_Add fixed])"
    by blast
  have fin: "f \<in> set fixed" using fx(1) assms(3) tf by simp
  have m: "main True query diff w = Inr (auto_fix_logs fs w, 0)"
    using assms(1) ne assms(2) by (rule main_unblocked(1))
  have 1: "files (auto_fix_logs fs w) f = Some [CHR 0x0A]"
    unfolding fx(2) using fin assms(4) r by simp
  have "Write_Text f (rewritten (the (files w f))) \<in>
          set (map (\<lambda>g. Write_Text g (rewritten (the (files w g)))) fixed)"
    using fin by (simp add: image_iff)
  then have 2: "Write_Text f [CHR 0x0A] \<in> set (effects (auto_fix_logs fs w))"
    unfolding fx(3) using assms(4) r by simp
  have 3: "\<forall>t. Write_Text f t \<in> set (effects (auto_fix_logs fs w)) \<longrightarrow>
             Write_Text f t \<in> set (effects w) \<or> t = [CHR 0x0A]"
    unfolding fx(3) using assms(4) r by (auto split: if_splits)
  show ?thesis using m 1 2 3 by blast
qed

theorem all_debug_file_becomes_one_newline_witness:
  "get_staged_files (Completed 0 ''app.js\<newline>empty.py\<newline>debug.py\<newline>'') =
     Inr [''app.js'', ''empty.py'', ''debug.py''] \<and>
   \<not> list_ex is_protected [''app.js'', ''empty.py'', ''debug.py''] \<and>
   ''debug.py'' \<in> set [''app.js'', ''empty.py'', ''debug.py''] \<and>
   files sample_world ''debug.py'' = Some ''print(x)\<newline>'' \<and>
   splitlines ''print(x)\<newline>'' = [''print(x)''] \<and>
   any_fix_match ''print(x)'' \<and>
   (\<exists>w'. main True (Completed 0 ''app.js\<newline>empty.py\<newline>debug.py\<newline>'') sample_diff sample_world =
           Inr (w', 0) \<and>
         files w' ''debug.py'' = Some ''\<newline>'' \<and>
         Write_Text ''debug.py'' ''\<newline>'' \<in> set (effects w'))"
proof -
  have i: "''debug.py'' \<in> set [''app.js'', ''empty.py'', ''debug.py'']" by simp
  have f: "files sample_world ''debug.py'' = Some ''print(x)\<newline>''"
    by (simp add: sample_world_def sample_tree_def)
  have s: "splitlines ''print(x)\<newline>'' = [''print(x)'']"
    by (simp add: splitlines_def is_linebreak_def code_def)
  have m: "any_fix_match ''print(x)''"
    by (simp add: any_fix_match_def FIX_PATTERNS_def re_match_def to_lower_def code_def is_space_def)
  have n: "splitlines ''print(x)\<newline>'' \<noteq> []" using s by simp
  have a: "\<forall>line\<in>set (splitlines ''print(x)\<newline>''). any_fix_match line" using s m by simp
  from all_debug_file_becomes_one_newline[OF sample_staged sample_unprotected i f n a,
      of sample_diff]
  have "\<exists>w'. main True (Completed 0 ''app.js\<newline>empty.py\<newline>debug.py\<newline>'') sample_diff sample_world =
           Inr (w', 0) \<and>
         files w' ''debug.py'' = Some ''\<newline>'' \<and>
         Write_Text ''debug.py'' ''\<newline>'' \<in> set (effects w')"
    by blast
  then show ?thesis using sample_staged sample_unprotected i f s m by (intro conjI)
qed

end
